theory Spec2Isabelle
  imports Main
begin

section \<open>The randomizer base class of metasim/randomization/base.py\<close>

text \<open>
  The class \<^verbatim>\<open>BaseRandomizerType\<close> owns a seeded pseudo-random generator and
  offers a render-settle barrier that drives the collaborators of a bound handler.
  Methods mutate \<^verbatim>\<open>self\<close> and the process around it; the model passes both
  explicitly and returns them updated.
\<close>

subsection \<open>Exceptions\<close>

text \<open>
  The source distinguishes three groups of exceptions by its \<^verbatim>\<open>except\<close> clauses:
  \<^verbatim>\<open>ImportError\<close> (with its subclasses), every other subclass of \<^verbatim>\<open>Exception\<close>,
  and the exceptions that derive from \<^verbatim>\<open>BaseException\<close> only
  (\<^verbatim>\<open>KeyboardInterrupt\<close>, \<^verbatim>\<open>SystemExit\<close>, \<^verbatim>\<open>GeneratorExit\<close>), which
  \<^verbatim>\<open>except Exception\<close> does not catch. An exception carries the text that
  \<^verbatim>\<open>str(err)\<close> yields.
\<close>

datatype exc_class = ImportError | OtherException | BaseExceptionOnly

datatype py_exception = Exc exc_class string

fun exc_class_of :: "py_exception \<Rightarrow> exc_class" where
  "exc_class_of (Exc c m) = c"

fun str :: "py_exception \<Rightarrow> string" where
  "str (Exc c m) = m"

definition isinstance_ImportError :: "py_exception \<Rightarrow> bool" where
  "isinstance_ImportError err = (exc_class_of err = ImportError)"

definition isinstance_Exception :: "py_exception \<Rightarrow> bool" where
  "isinstance_Exception err = (exc_class_of err = ImportError \<or> exc_class_of err = OtherException)"

subsection \<open>The trace of a run\<close>

text \<open>
  Every call the barrier makes into a collaborator, with its outcome (\<open>None\<close>: it
  returned, \<open>Some err\<close>: it raised \<open>err\<close>), and every record handed to the logger is
  appended to a trace, in program order. \<open>SensorsValues\<close> is the call
  \<^verbatim>\<open>sensors.values()\<close> together with the \<^verbatim>\<open>iter\<close> that the \<^verbatim>\<open>for\<close> statement applies
  to its result, and \<open>SensorsNext\<close> is one \<^verbatim>\<open>next\<close> of that iterator.
\<close>

datatype level = DEBUG | WARNING

datatype call =
    SceneUpdate int
  | SimHasGui
  | SimHasRtxSensors
  | SimRender
  | SensorsValues
  | SensorsNext
  | SensorUpdate string int
  | ImportMatlib
  | MatlibWaitFn
  | MatlibGetInstance
  | InstanceWait string
  | ImportAsyncEngine
  | GetAsyncEngine
  | WaitForTasks

datatype event = Call call "py_exception option" | Log level string

subsection \<open>The process around a randomizer\<close>

text \<open>
  \<open>inst\<close> is the state of the hidden module-level generator behind
  \<^verbatim>\<open>random.getrandbits\<close>; \<open>world\<close> is whatever state the handler's collaborators
  and the host engine keep; \<open>trace\<close> is described above.
\<close>

record ('g, 'w) process =
  inst :: 'g
  world :: 'w
  trace :: "event list"

text \<open>
  The standard library's \<^verbatim>\<open>random\<close> module is not part of the repository: its
  generator algorithm is a parameter. \<open>new_Random s\<close> is the state of
  \<^verbatim>\<open>random.Random(s)\<close> for an integer \<open>s\<close>, and \<open>getrandbits k g\<close> is the value
  drawn by \<^verbatim>\<open>getrandbits(k)\<close> from a generator in state \<open>g\<close> together with the
  state it leaves.
\<close>

record 'g random_module =
  new_Random :: "int \<Rightarrow> 'g"
  getrandbits :: "nat \<Rightarrow> 'g \<Rightarrow> int \<times> 'g"

subsection \<open>Handler, scene, sim and sensors\<close>

text \<open>
  A collaborator method acts on the world and either returns a value or raises.
\<close>

type_synonym ('w, 'a) py_method = "'w \<Rightarrow> (py_exception + 'a) \<times> 'w"

record 'w sensor =
  update_sensor :: "int \<Rightarrow> ('w, unit) py_method"

record 'w sim =
  has_gui :: "('w, bool) py_method"
  has_rtx_sensors :: "('w, bool) py_method"
  render :: "('w, unit) py_method"

text \<open>
  What \<^verbatim>\<open>getattr(scene, "sensors", {})\<close> can find: no such attribute, an object
  without a method \<^verbatim>\<open>values\<close> (\<^verbatim>\<open>None\<close>, say; the string is the name of its
  type), or a dict. A dict is a live object: an update can change it while the
  barrier iterates over it. It is given by its table of entries as a function of the
  world: the entries in insertion order, with an empty slot (\<open>None\<close>) where an
  entry has been deleted, as the interpreter keeps them.
\<close>

datatype 'w sensors_attr =
    NoAttribute
  | NotMapping string
  | Dict "'w \<Rightarrow> (string \<times> 'w sensor) option list"

text \<open>
  The entries of a table, and its first entry with the number of empty slots before
  it.
\<close>

fun entries_of :: "'a option list \<Rightarrow> 'a list" where
  "entries_of [] = []"
| "entries_of (None # slots) = entries_of slots"
| "entries_of (Some x # slots) = x # entries_of slots"

fun first_entry :: "'a option list \<Rightarrow> (nat \<times> 'a) option" where
  "first_entry [] = None"
| "first_entry (Some x # slots) = Some (0, x)"
| "first_entry (None # slots) =
     (case first_entry slots of None \<Rightarrow> None | Some (i, x) \<Rightarrow> Some (Suc i, x))"

text \<open>
  \<open>sensors\<close> is the scene's attribute of that name. The scene is live as well: the
  attribute is a function of the world, and the barrier reads it in every pass.
\<close>

record 'w scene =
  update_scene :: "int \<Rightarrow> ('w, unit) py_method"
  sensors :: "'w \<Rightarrow> 'w sensors_attr"

text \<open>
  \<open>scene\<close> and \<open>sim\<close> are \<open>None\<close> when the handler has no such attribute or holds
  \<^verbatim>\<open>None\<close> there: \<^verbatim>\<open>getattr(handler, "scene", None)\<close> does not tell the two apart.
\<close>

record 'w handler =
  scene :: "'w scene option"
  sim :: "'w sim option"

subsection \<open>The randomizer instance\<close>

text \<open>
  \<open>priv_seed\<close> and \<open>priv_rng\<close> are the attributes \<^verbatim>\<open>_seed\<close> and \<^verbatim>\<open>_rng\<close>.
  The generator object is owned by the instance alone, so it is held by value.
\<close>

record ('g, 'w, 'o) BaseRandomizerType =
  handler :: "'w handler option"
  randomizer_options :: "(string \<times> 'o) list"
  priv_seed :: "int option"
  priv_rng :: "'g option"

subsection \<open>Seeding\<close>

definition set_seed ::
  "'g random_module \<Rightarrow> int option \<Rightarrow> ('g, 'w, 'o) BaseRandomizerType \<Rightarrow> ('g, 'w) process
   \<Rightarrow> ('g, 'w, 'o) BaseRandomizerType \<times> ('g, 'w) process" where
  "set_seed R seed_arg self p =
     (case (case seed_arg of
              None \<Rightarrow> (case getrandbits R 64 (inst p) of (v, g) \<Rightarrow> (v, p\<lparr>inst := g\<rparr>))
            | Some v \<Rightarrow> (v, p)) of
        (sd, p') \<Rightarrow>
          (self\<lparr>priv_seed := Some sd, priv_rng := Some (new_Random R sd)\<rparr>, p'))"

definition init ::
  "'g random_module \<Rightarrow> int option \<Rightarrow> (string \<times> 'o) list \<Rightarrow> ('g, 'w) process
   \<Rightarrow> ('g, 'w, 'o) BaseRandomizerType \<times> ('g, 'w) process" where
  "init R seed_arg kwargs p =
     (let self = \<lparr>handler = None, randomizer_options = kwargs,
                  priv_seed = None, priv_rng = None\<rparr>
      in case seed_arg of
           None \<Rightarrow> (self, p)
         | Some v \<Rightarrow> set_seed R (Some v) self p)"

definition seed :: "('g, 'w, 'o) BaseRandomizerType \<Rightarrow> int option" where
  "seed self = priv_seed self"

definition rng ::
  "'g random_module \<Rightarrow> ('g, 'w, 'o) BaseRandomizerType \<Rightarrow> ('g, 'w) process
   \<Rightarrow> 'g option \<times> ('g, 'w, 'o) BaseRandomizerType \<times> ('g, 'w) process" where
  "rng R self p =
     (if priv_rng self = None
      then (case set_seed R (priv_seed self) self p of
              (self', p') \<Rightarrow> (priv_rng self', self', p'))
      else (priv_rng self, self, p))"

definition bind_handler ::
  "'w handler option \<Rightarrow> ('g, 'w, 'o) BaseRandomizerType \<Rightarrow> ('g, 'w, 'o) BaseRandomizerType" where
  "bind_handler h self = self\<lparr>handler := h\<rparr>"

definition call_randomizer ::
  "('g, 'w, 'o) BaseRandomizerType \<Rightarrow> ('g, 'w) process
   \<Rightarrow> ('g, 'w, 'o) BaseRandomizerType \<times> ('g, 'w) process" where
  "call_randomizer self p = (self, p)"

text \<open>
  A subclass draws through the accessor, as in \<^verbatim>\<open>self.rng.getrandbits(k)\<close>. The
  generator object is advanced in place, so the instance holds the advanced state.
  A sequence of draws is given by its requests \<open>ks\<close>; the other drawing methods of
  the library are functions of the generator's state in the same way.
\<close>

fun draws :: "'g random_module \<Rightarrow> nat list \<Rightarrow> 'g \<Rightarrow> int list \<times> 'g" where
  "draws R [] g = ([], g)"
| "draws R (k # ks) g =
     (case getrandbits R k g of
        (v, g') \<Rightarrow> (case draws R ks g' of (vs, g'') \<Rightarrow> (v # vs, g'')))"

definition rng_draws ::
  "'g random_module \<Rightarrow> nat list \<Rightarrow> ('g, 'w, 'o) BaseRandomizerType \<Rightarrow> ('g, 'w) process
   \<Rightarrow> int list option \<times> ('g, 'w, 'o) BaseRandomizerType \<times> ('g, 'w) process" where
  "rng_draws R ks self p =
     (case rng R self p of
        (None, self', p') \<Rightarrow> (None, self', p')
      | (Some g, self', p') \<Rightarrow>
          (case draws R ks g of
             (vs, g') \<Rightarrow> (Some vs, self'\<lparr>priv_rng := Some g'\<rparr>, p')))"

subsection \<open>Calling collaborators and logging\<close>

text \<open>
  \<open>invoke c m\<close> runs the collaborator method \<open>m\<close> on the world and records the call
  \<open>c\<close> with its outcome. \<open>logger lvl msg\<close> is \<^verbatim>\<open>logger.debug(msg)\<close> or
  \<^verbatim>\<open>logger.warning(msg)\<close>.
\<close>

definition invoke ::
  "call \<Rightarrow> ('w, 'a) py_method \<Rightarrow> ('g, 'w) process \<Rightarrow> (py_exception + 'a) \<times> ('g, 'w) process" where
  "invoke c m p =
     (case m (world p) of
        (r, w') \<Rightarrow>
          (r, p\<lparr>world := w',
                trace := trace p @ [Call c (case r of Inl err \<Rightarrow> Some err | Inr x \<Rightarrow> None)]\<rparr>))"

definition logger :: "level \<Rightarrow> string \<Rightarrow> ('g, 'w) process \<Rightarrow> ('g, 'w) process" where
  "logger lvl msg p = p\<lparr>trace := trace p @ [Log lvl msg]\<rparr>"

subsection \<open>The host engine's optional modules\<close>

text \<open>
  The modules \<^verbatim>\<open>omni.kit.material.library\<close> and \<^verbatim>\<open>omni.kit.async_engine\<close> belong
  to the host engine, not to the repository: the deployment is a parameter. An
  attribute that is absent or not callable is \<open>None\<close>. The object returned by
  \<^verbatim>\<open>get_instance()\<close> is the table of its callable attributes.
\<close>

type_synonym 'w matlib_instance = "string \<Rightarrow> ('w, unit) py_method option"

record 'w matlib =
  wait_for_pending_refreshes :: "('w, unit) py_method option"
  get_instance :: "('w, 'w matlib_instance) py_method option"

record 'w async_engine =
  wait_for_tasks :: "('w, unit) py_method"

record 'w omni =
  import_matlib :: "('w, 'w matlib) py_method"
  import_get_async_engine :: "('w, ('w, 'w async_engine) py_method) py_method"

subsection \<open>Phase 1: waiting for the material library\<close>

definition wait_attr_names :: "string list" where
  "wait_attr_names =
     [''wait_for_pending_refreshes'', ''wait_for_pending_compiles'',
      ''wait_for_pending_compile'', ''wait_for_pending_tasks'']"

text \<open>The loop over the candidate method names; the result is \<^verbatim>\<open>waited\<close>.\<close>

fun probe_instance ::
  "string list \<Rightarrow> 'w matlib_instance \<Rightarrow> ('g, 'w) process
   \<Rightarrow> (py_exception + bool) \<times> ('g, 'w) process" where
  "probe_instance [] inst_obj p = (Inr False, p)"
| "probe_instance (attr_name # rest) inst_obj p =
     (case inst_obj attr_name of
        Some wait_method \<Rightarrow>
          (case invoke (InstanceWait attr_name) wait_method p of
             (Inl err, p1) \<Rightarrow> (Inl err, p1)
           | (Inr u, p1) \<Rightarrow> (Inr True, p1))
      | None \<Rightarrow> probe_instance rest inst_obj p)"

text \<open>The body of the \<^verbatim>\<open>try\<close> statement of \<^verbatim>\<open>_wait_for_material_library\<close>.\<close>

definition material_library_try ::
  "'w omni \<Rightarrow> ('g, 'w) process \<Rightarrow> (py_exception + unit) \<times> ('g, 'w) process" where
  "material_library_try E p =
     (case invoke ImportMatlib (import_matlib E) p of
        (Inl err, p1) \<Rightarrow> (Inl err, p1)
      | (Inr matlib, p1) \<Rightarrow>
          (case (case wait_for_pending_refreshes matlib of
                   Some wait_fn \<Rightarrow>
                     (case invoke MatlibWaitFn wait_fn p1 of
                        (Inl err, p2) \<Rightarrow> (Inl err, p2)
                      | (Inr u, p2) \<Rightarrow> (Inr True, p2))
                 | None \<Rightarrow>
                     (case get_instance matlib of
                        Some get_inst \<Rightarrow>
                          (case invoke MatlibGetInstance get_inst p1 of
                             (Inl err, p2) \<Rightarrow> (Inl err, p2)
                           | (Inr inst_obj, p2) \<Rightarrow> probe_instance wait_attr_names inst_obj p2)
                      | None \<Rightarrow> (Inr False, p1))) of
             (Inl err, p3) \<Rightarrow> (Inl err, p3)
           | (Inr waited, p3) \<Rightarrow>
               (Inr (),
                if \<not> waited
                then logger DEBUG
                       ''Material library exposes no pending-refresh wait API; continuing'' p3
                else p3)))"

definition wait_for_material_library ::
  "'w omni \<Rightarrow> ('g, 'w) process \<Rightarrow> (py_exception + unit) \<times> ('g, 'w) process" where
  "wait_for_material_library E p =
     (case material_library_try E p of
        (Inl err, p1) \<Rightarrow>
          if isinstance_ImportError err
          then (Inr (), logger DEBUG ''Material library not available; skipping wait'' p1)
          else if isinstance_Exception err
          then (Inr (), logger WARNING (''Failed to wait for material refreshes: '' @ str err) p1)
          else (Inl err, p1)
      | (Inr u, p1) \<Rightarrow> (Inr (), p1))"

subsection \<open>Phase 2: zero-dt settle passes\<close>

text \<open>
  The exceptions the interpreter raises for \<^verbatim>\<open>obj.values\<close> on an object without
  that attribute, and for \<^verbatim>\<open>next\<close> on the iterator of a dict that has changed
  since the iterator was made. \<^verbatim>\<open>AttributeError\<close> and \<^verbatim>\<open>RuntimeError\<close> both
  derive from \<^verbatim>\<open>Exception\<close>.
\<close>

definition attribute_error :: "string \<Rightarrow> string \<Rightarrow> py_exception" where
  "attribute_error ty attr_name =
     Exc OtherException
       ([CHR 0x27] @ ty @ [CHR 0x27] @ '' object has no attribute ''
          @ [CHR 0x27] @ attr_name @ [CHR 0x27])"

definition size_changed_error :: py_exception where
  "size_changed_error = Exc OtherException ''dictionary changed size during iteration''"

definition keys_changed_error :: py_exception where
  "keys_changed_error = Exc OtherException ''dictionary keys changed during iteration''"

text \<open>
  \<^verbatim>\<open>sensors.values()\<close> on the dict with the table \<open>d\<close>, and the iterator that the
  \<^verbatim>\<open>for\<close> statement makes of it: the iterator notes the number \<open>used\<close> of entries
  of the dict, and keeps a position \<open>pos\<close> in the table and the number \<open>len\<close> of
  entries it has still to yield, at first \<open>0\<close> and \<open>used\<close>.

  \<open>next_value d used pos len\<close> is \<^verbatim>\<open>next\<close> of the iterator, as the interpreter's
  dict iterator does it. It raises when the dict no longer has \<open>used\<close> entries.
  Otherwise it looks for the first entry at or after \<open>pos\<close> in the table as it is
  now: with none, the iteration ends (\<open>None\<close>, for \<^verbatim>\<open>StopIteration\<close>); with one
  found when nothing was left to yield, it raises; else it yields the entry, with
  the position after it. Neither call changes the world.
\<close>

definition iter_values ::
  "('w \<Rightarrow> (string \<times> 'w sensor) option list) \<Rightarrow> ('w, nat) py_method" where
  "iter_values d w = (Inr (length (entries_of (d w))), w)"

definition next_value ::
  "('w \<Rightarrow> (string \<times> 'w sensor) option list) \<Rightarrow> nat \<Rightarrow> nat \<Rightarrow> nat
   \<Rightarrow> ('w, (nat \<times> string \<times> 'w sensor) option) py_method" where
  "next_value d used pos len w =
     (if length (entries_of (d w)) \<noteq> used then (Inl size_changed_error, w)
      else (case first_entry (drop pos (d w)) of
              None \<Rightarrow> (Inr None, w)
            | Some (i, entry) \<Rightarrow>
                if len = 0 then (Inl keys_changed_error, w)
                else (Inr (Some (pos + i + 1, entry)), w)))"

text \<open>
  The loop \<^verbatim>\<open>for sensor in sensors.values()\<close> over a dict. The last argument but
  one is \<open>len\<close>: it goes down with every entry yielded, and with nothing left one
  more \<^verbatim>\<open>next\<close> ends the loop or raises. The \<^verbatim>\<open>next\<close> is outside the \<^verbatim>\<open>try\<close>
  statement: what it raises leaves the loop.
\<close>

fun sensors_loop ::
  "('w \<Rightarrow> (string \<times> 'w sensor) option list) \<Rightarrow> nat \<Rightarrow> nat \<Rightarrow> nat
   \<Rightarrow> ('g, 'w) process \<Rightarrow> (py_exception + unit) \<times> ('g, 'w) process" where
  "sensors_loop d used pos 0 p =
     (case invoke SensorsNext (next_value d used pos 0) p of
        (Inl err, p1) \<Rightarrow> (Inl err, p1)
      | (Inr nxt, p1) \<Rightarrow> (Inr (), p1))"
| "sensors_loop d used pos (Suc len) p =
     (case invoke SensorsNext (next_value d used pos (Suc len)) p of
        (Inl err, p1) \<Rightarrow> (Inl err, p1)
      | (Inr None, p1) \<Rightarrow> (Inr (), p1)
      | (Inr (Some (pos', name, sn)), p1) \<Rightarrow>
          (case invoke (SensorUpdate name 0) (update_sensor sn 0) p1 of
             (Inl err, p2) \<Rightarrow>
               if isinstance_Exception err
               then sensors_loop d used pos' len
                      (logger DEBUG (''Sensor update during settle failed: '' @ str err) p2)
               else (Inl err, p2)
           | (Inr u, p2) \<Rightarrow> sensors_loop d used pos' len p2))"

text \<open>
  The last two statements of a pass: \<^verbatim>\<open>sensors = getattr(scene, "sensors", {})\<close>
  reads the attribute of the scene as it is now, and the \<^verbatim>\<open>for\<close> statement calls
  \<^verbatim>\<open>sensors.values()\<close> and iterates. Without the attribute the loop runs over the
  barrier's own empty dict and does nothing. No \<^verbatim>\<open>try\<close> statement encloses
  \<^verbatim>\<open>sensors.values()\<close>.
\<close>

definition update_sensors ::
  "'w scene \<Rightarrow> ('g, 'w) process \<Rightarrow> (py_exception + unit) \<times> ('g, 'w) process" where
  "update_sensors sc p =
     (case sensors sc (world p) of
        NoAttribute \<Rightarrow> (Inr (), p)
      | NotMapping ty \<Rightarrow>
          invoke SensorsValues (\<lambda>w. (Inl (attribute_error ty ''values''), w)) p
      | Dict d \<Rightarrow>
          (case invoke SensorsValues (iter_values d) p of
             (Inl err, p1) \<Rightarrow> (Inl err, p1)
           | (Inr used, p1) \<Rightarrow> sensors_loop d used 0 used p1))"

text \<open>
  The body of the \<^verbatim>\<open>try\<close> statement around the render:
  \<^verbatim>\<open>if sim.has_gui() or sim.has_rtx_sensors(): sim.render()\<close>, where \<^verbatim>\<open>or\<close> does
  not evaluate its second operand when the first is true.
\<close>

definition render_try ::
  "'w sim \<Rightarrow> ('g, 'w) process \<Rightarrow> (py_exception + unit) \<times> ('g, 'w) process" where
  "render_try sm p =
     (case invoke SimHasGui (has_gui sm) p of
        (Inl err, p1) \<Rightarrow> (Inl err, p1)
      | (Inr gui, p1) \<Rightarrow>
          if gui then invoke SimRender (render sm) p1
          else (case invoke SimHasRtxSensors (has_rtx_sensors sm) p1 of
                  (Inl err, p2) \<Rightarrow> (Inl err, p2)
                | (Inr rtx, p2) \<Rightarrow>
                    if rtx then invoke SimRender (render sm) p2 else (Inr (), p2)))"

definition render_step ::
  "'w sim option \<Rightarrow> ('g, 'w) process \<Rightarrow> (py_exception + unit) \<times> ('g, 'w) process" where
  "render_step sim_opt p =
     (case sim_opt of
        None \<Rightarrow> (Inr (), p)
      | Some sm \<Rightarrow>
          (case render_try sm p of
             (Inl err, p1) \<Rightarrow>
               if isinstance_Exception err
               then (Inr (), logger DEBUG (''Sim render during settle failed: '' @ str err) p1)
               else (Inl err, p1)
           | (Inr u, p1) \<Rightarrow> (Inr (), p1)))"

text \<open>
  The loop \<^verbatim>\<open>for _ in range(passes)\<close>; the first argument is the number of passes
  still to run. A caught failure of the scene update leaves the loop.
\<close>

fun settle_loop ::
  "nat \<Rightarrow> 'w scene \<Rightarrow> 'w sim option \<Rightarrow> ('g, 'w) process
   \<Rightarrow> (py_exception + unit) \<times> ('g, 'w) process" where
  "settle_loop 0 sc sim_opt p = (Inr (), p)"
| "settle_loop (Suc n) sc sim_opt p =
     (case invoke (SceneUpdate 0) (update_scene sc 0) p of
        (Inl err, p1) \<Rightarrow>
          if isinstance_Exception err
          then (Inr (), logger DEBUG (''Scene update during settle failed: '' @ str err) p1)
          else (Inl err, p1)
      | (Inr u, p1) \<Rightarrow>
          (case render_step sim_opt p1 of
             (Inl err, p2) \<Rightarrow> (Inl err, p2)
           | (Inr u, p2) \<Rightarrow>
               (case update_sensors sc p2 of
                  (Inl err, p3) \<Rightarrow> (Inl err, p3)
                | (Inr u, p3) \<Rightarrow> settle_loop n sc sim_opt p3)))"

definition settle_renderer_frames ::
  "int \<Rightarrow> ('g, 'w, 'o) BaseRandomizerType \<Rightarrow> ('g, 'w) process
   \<Rightarrow> (py_exception + unit) \<times> ('g, 'w) process" where
  "settle_renderer_frames settle_passes self p =
     (case handler self of
        None \<Rightarrow> (Inr (), p)
      | Some h \<Rightarrow>
          (case scene h of
             None \<Rightarrow> (Inr (), p)
           | Some sc \<Rightarrow> settle_loop (nat (max 0 settle_passes)) sc (sim h) p))"

subsection \<open>Phase 3: flushing the async engine\<close>

definition async_engine_try ::
  "'w omni \<Rightarrow> ('g, 'w) process \<Rightarrow> (py_exception + unit) \<times> ('g, 'w) process" where
  "async_engine_try E p =
     (case invoke ImportAsyncEngine (import_get_async_engine E) p of
        (Inl err, p1) \<Rightarrow> (Inl err, p1)
      | (Inr get_async_engine, p1) \<Rightarrow>
          (case invoke GetAsyncEngine get_async_engine p1 of
             (Inl err, p2) \<Rightarrow> (Inl err, p2)
           | (Inr engine, p2) \<Rightarrow> invoke WaitForTasks (wait_for_tasks engine) p2))"

definition wait_for_async_engine ::
  "'w omni \<Rightarrow> ('g, 'w) process \<Rightarrow> (py_exception + unit) \<times> ('g, 'w) process" where
  "wait_for_async_engine E p =
     (case async_engine_try E p of
        (Inl err, p1) \<Rightarrow>
          if isinstance_ImportError err
          then (Inr (),
                logger DEBUG ''Omniverse async engine not available; skipping wait_for_tasks'' p1)
          else if isinstance_Exception err
          then (Inr (), logger WARNING (''Failed to wait for async tasks: '' @ str err) p1)
          else (Inl err, p1)
      | (Inr u, p1) \<Rightarrow> (Inr (), p1))"

subsection \<open>The barrier\<close>

definition sync_visual_updates ::
  "'w omni \<Rightarrow> bool \<Rightarrow> int \<Rightarrow> ('g, 'w, 'o) BaseRandomizerType \<Rightarrow> ('g, 'w) process
   \<Rightarrow> (py_exception + unit) \<times> ('g, 'w) process" where
  "sync_visual_updates E wait_for_materials settle_passes self p =
     (case (if wait_for_materials then wait_for_material_library E p else (Inr (), p)) of
        (Inl err, p1) \<Rightarrow> (Inl err, p1)
      | (Inr u, p1) \<Rightarrow>
          (case settle_renderer_frames settle_passes self p1 of
             (Inl err, p2) \<Rightarrow> (Inl err, p2)
           | (Inr u, p2) \<Rightarrow> wait_for_async_engine E p2))"

subsection \<open>Observations on traces\<close>

fun is_scene_call :: "call \<Rightarrow> bool" where
  "is_scene_call (SceneUpdate dt) = True"
| "is_scene_call c = False"

fun is_sim_call :: "call \<Rightarrow> bool" where
  "is_sim_call SimHasGui = True"
| "is_sim_call SimHasRtxSensors = True"
| "is_sim_call SimRender = True"
| "is_sim_call c = False"

fun is_sensor_call :: "call \<Rightarrow> bool" where
  "is_sensor_call (SensorUpdate name dt) = True"
| "is_sensor_call c = False"

fun is_iteration_call :: "call \<Rightarrow> bool" where
  "is_iteration_call SensorsValues = True"
| "is_iteration_call SensorsNext = True"
| "is_iteration_call c = False"

fun is_matlib_call :: "call \<Rightarrow> bool" where
  "is_matlib_call ImportMatlib = True"
| "is_matlib_call MatlibWaitFn = True"
| "is_matlib_call MatlibGetInstance = True"
| "is_matlib_call (InstanceWait attr_name) = True"
| "is_matlib_call c = False"

fun is_async_call :: "call \<Rightarrow> bool" where
  "is_async_call ImportAsyncEngine = True"
| "is_async_call GetAsyncEngine = True"
| "is_async_call WaitForTasks = True"
| "is_async_call c = False"


fun is_call_in :: "(call \<Rightarrow> bool) \<Rightarrow> event \<Rightarrow> bool" where
  "is_call_in G (Call c outcome) = G c"
| "is_call_in G (Log lvl msg) = False"

fun is_scene_update_raise :: "event \<Rightarrow> bool" where
  "is_scene_update_raise (Call (SceneUpdate dt) (Some err)) = True"
| "is_scene_update_raise ev = False"


text \<open>
  The record the source writes when the call \<open>c\<close> has raised \<open>err\<close> and the
  exception is caught: its level and its text, by the phase the call belongs to.
\<close>

definition expected_level :: "call \<Rightarrow> py_exception \<Rightarrow> level" where
  "expected_level c err =
     (if (is_matlib_call c \<or> is_async_call c) \<and> \<not> isinstance_ImportError err
      then WARNING else DEBUG)"

definition expected_message :: "call \<Rightarrow> py_exception \<Rightarrow> string" where
  "expected_message c err =
     (if is_scene_call c then ''Scene update during settle failed: '' @ str err
      else if is_sim_call c then ''Sim render during settle failed: '' @ str err
      else if is_sensor_call c then ''Sensor update during settle failed: '' @ str err
      else if is_matlib_call c then
        (if isinstance_ImportError err then ''Material library not available; skipping wait''
         else ''Failed to wait for material refreshes: '' @ str err)
      else
        (if isinstance_ImportError err
         then ''Omniverse async engine not available; skipping wait_for_tasks''
         else ''Failed to wait for async tasks: '' @ str err))"

text \<open>
  An exception \<open>err\<close> raised by the call \<open>c\<close> is caught by the barrier when it derives
  from \<^verbatim>\<open>Exception\<close> and the call is inside a \<^verbatim>\<open>try\<close> statement; all calls are,
  except \<^verbatim>\<open>sensors.values()\<close> and the iteration.
\<close>

definition caught :: "call \<Rightarrow> py_exception \<Rightarrow> bool" where
  "caught c err = (isinstance_Exception err \<and> \<not> is_iteration_call c)"

text \<open>
  The records of a trace are in order: every call that raised was caught and is
  followed at once by its record, and every other record is the debug record of a
  material library without a wait API.
\<close>

fun well_logged :: "event list \<Rightarrow> bool" where
  "well_logged [] = True"
| "well_logged (Call c None # evs) = well_logged evs"
| "well_logged (Call c (Some err) # Log lvl msg # evs) =
     (caught c err \<and> lvl = expected_level c err \<and> msg = expected_message c err
      \<and> well_logged evs)"
| "well_logged (Call c (Some err) # evs) = False"
| "well_logged (Log lvl msg # evs) =
     (lvl = DEBUG
      \<and> msg = ''Material library exposes no pending-refresh wait API; continuing''
      \<and> well_logged evs)"

subsection \<open>Runs and their traces\<close>

text \<open>
  \<open>run_ok G p res p'\<close> describes a run from \<open>p\<close> to \<open>p'\<close> that returned
  (\<open>res = None\<close>) or raised \<open>err\<close> (\<open>res = Some err\<close>): the trace has grown by
  events whose calls all belong to the group \<open>G\<close>; the records in them are in order,
  except that a run that raised ends with the call that raised. \<open>run_out\<close> describes
  a run in which, moreover, the exception raised is one that the barrier does not
  catch.
\<close>

fun outcome :: "py_exception + 'a \<Rightarrow> py_exception option" where
  "outcome (Inl err) = Some err"
| "outcome (Inr x) = None"

fun in_group :: "(call \<Rightarrow> bool) \<Rightarrow> event \<Rightarrow> bool" where
  "in_group G (Call c oc) = G c"
| "in_group G (Log lvl msg) = True"

definition run_ok ::
  "(call \<Rightarrow> bool) \<Rightarrow> ('g, 'w) process \<Rightarrow> py_exception option \<Rightarrow> ('g, 'w) process \<Rightarrow> bool" where
  "run_ok G p res p' \<longleftrightarrow>
     (\<exists>evs. trace p' = trace p @ evs
        \<and> list_all (in_group G) evs
        \<and> (case res of
              None \<Rightarrow> well_logged evs
            | Some err \<Rightarrow> \<exists>c evs0. evs = evs0 @ [Call c (Some err)] \<and> well_logged evs0))"

definition run_out ::
  "(call \<Rightarrow> bool) \<Rightarrow> ('g, 'w) process \<Rightarrow> py_exception option \<Rightarrow> ('g, 'w) process \<Rightarrow> bool" where
  "run_out G p res p' \<longleftrightarrow>
     (\<exists>evs. trace p' = trace p @ evs
        \<and> list_all (in_group G) evs
        \<and> (case res of
              None \<Rightarrow> well_logged evs
            | Some err \<Rightarrow>
                \<exists>c evs0. evs = evs0 @ [Call c (Some err)] \<and> well_logged evs0
                  \<and> \<not> caught c err))"

text \<open>
  The calls of the sensor phase of a pass, of the settle phase, and of the whole
  barrier.
\<close>

definition is_sensor_phase_call :: "call \<Rightarrow> bool" where
  "is_sensor_phase_call c = (is_sensor_call c \<or> is_iteration_call c)"

definition is_settle_call :: "call \<Rightarrow> bool" where
  "is_settle_call c =
     (is_scene_call c \<or> is_sim_call c \<or> is_sensor_call c \<or> is_iteration_call c)"

definition is_barrier_call :: "bool \<Rightarrow> call \<Rightarrow> bool" where
  "is_barrier_call wait_for_materials c =
     (is_settle_call c \<or> is_async_call c \<or> (wait_for_materials \<and> is_matlib_call c))"

text \<open>
  What follows a scene update that raised: its record and nothing more from the loop
  when the exception was caught, nothing at all when it was not.
\<close>

definition scene_log :: "py_exception \<Rightarrow> event" where
  "scene_log err = Log DEBUG (''Scene update during settle failed: '' @ str err)"

definition after_raise :: "(py_exception + unit) \<Rightarrow> event list \<Rightarrow> bool" where
  "after_raise r evs \<longleftrightarrow>
     (\<forall>pre dt err post. evs = pre @ Call (SceneUpdate dt) (Some err) # post \<longrightarrow>
        dt = 0
        \<and> post = (if isinstance_Exception err then [scene_log err] else [])
        \<and> r = (if isinstance_Exception err then Inr () else Inl err))"

subsection \<open>Scenes whose sensors stay as they are\<close>










subsection \<open>Operations on an instance\<close>

text \<open>
  What a client can do with an instance after constructing it: the public methods,
  the two accessors, draws through the accessor, and the barrier. \<open>exec\<close> runs one
  operation; an exception leaving the barrier is handled by the client, so the
  instance and the process go on.
\<close>

datatype 'w operation =
    Op_set_seed "int option"
  | Op_seed
  | Op_rng
  | Op_rng_draws "nat list"
  | Op_bind_handler "'w handler option"
  | Op_call
  | Op_sync_visual_updates bool int

fun exec ::
  "'g random_module \<Rightarrow> 'w omni \<Rightarrow> 'w operation
   \<Rightarrow> ('g, 'w, 'o) BaseRandomizerType \<times> ('g, 'w) process
   \<Rightarrow> ('g, 'w, 'o) BaseRandomizerType \<times> ('g, 'w) process" where
  "exec R E (Op_set_seed seed_arg) (self, p) = set_seed R seed_arg self p"
| "exec R E Op_seed (self, p) = (self, p)"
| "exec R E Op_rng (self, p) = snd (rng R self p)"
| "exec R E (Op_rng_draws ks) (self, p) = snd (rng_draws R ks self p)"
| "exec R E (Op_bind_handler h) (self, p) = (bind_handler h self, p)"
| "exec R E Op_call (self, p) = call_randomizer self p"
| "exec R E (Op_sync_visual_updates wait_for_materials settle_passes) (self, p) =
     (self, snd (sync_visual_updates E wait_for_materials settle_passes self p))"

definition seed_invariant :: "('g, 'w, 'o) BaseRandomizerType \<Rightarrow> bool" where
  "seed_invariant self = (priv_rng self \<noteq> None \<longrightarrow> priv_seed self \<noteq> None)"

subsection \<open>Concrete collaborators\<close>

text \<open>
  A small congruential generator stands for the library's algorithm where a run is
  evaluated, and a world that counts the calls made into it stands for the host.
\<close>

definition lcg :: "nat random_module" where
  "lcg = \<lparr>new_Random = (\<lambda>s. nat \<bar>s\<bar>),
          getrandbits = (\<lambda>k g. (int ((5 * g + 3) mod 2 ^ k), (5 * g + 3) mod 4096))\<rparr>"

definition start :: "(nat, nat) process" where
  "start = \<lparr>inst = 7, world = 0, trace = []\<rparr>"

definition returning :: "'a \<Rightarrow> (nat, 'a) py_method" where
  "returning x w = (Inr x, Suc w)"

definition raising :: "py_exception \<Rightarrow> (nat, 'a) py_method" where
  "raising err w = (Inl err, Suc w)"

definition headless :: "nat omni" where
  "headless =
     \<lparr>import_matlib = raising (Exc ImportError ''No module named omni''),
      import_get_async_engine = raising (Exc ImportError ''No module named omni'')\<rparr>"

definition kit :: "nat omni" where
  "kit =
     \<lparr>import_matlib =
        returning \<lparr>wait_for_pending_refreshes = Some (returning ()), get_instance = None\<rparr>,
      import_get_async_engine =
        returning (returning \<lparr>wait_for_tasks = returning ()\<rparr>)\<rparr>"

definition failing_kit :: "nat omni" where
  "failing_kit =
     \<lparr>import_matlib =
        returning \<lparr>wait_for_pending_refreshes = Some (raising (Exc OtherException ''mdl'')),
                   get_instance = None\<rparr>,
      import_get_async_engine =
        returning (returning \<lparr>wait_for_tasks = raising (Exc OtherException ''queue'')\<rparr>)\<rparr>"

text \<open>A material library that offers no way to wait.\<close>

definition bare_kit :: "nat omni" where
  "bare_kit =
     \<lparr>import_matlib = returning \<lparr>wait_for_pending_refreshes = None, get_instance = None\<rparr>,
      import_get_async_engine =
        returning (returning \<lparr>wait_for_tasks = returning ()\<rparr>)\<rparr>"

definition interrupted :: "nat omni" where
  "interrupted =
     \<lparr>import_matlib = raising (Exc ImportError ''No module named omni''),
      import_get_async_engine =
        returning (returning
          \<lparr>wait_for_tasks = raising (Exc BaseExceptionOnly ''KeyboardInterrupt'')\<rparr>)\<rparr>"

text \<open>A scene whose update returns for the first \<open>k\<close> calls into the world.\<close>

definition scene_failing_from :: "nat \<Rightarrow> py_exception \<Rightarrow> nat scene" where
  "scene_failing_from k err =
     \<lparr>update_scene = (\<lambda>dt w. if w < k then (Inr (), Suc w) else (Inl err, Suc w)),
      sensors = (\<lambda>w. NoAttribute)\<rparr>"

definition ok_sensor :: "nat sensor" where
  "ok_sensor = \<lparr>update_sensor = (\<lambda>dt. returning ())\<rparr>"

definition failing_sensor :: "py_exception \<Rightarrow> nat sensor" where
  "failing_sensor err = \<lparr>update_sensor = (\<lambda>dt. raising err)\<rparr>"

definition scene_with :: "(string \<times> nat sensor) list \<Rightarrow> nat scene" where
  "scene_with m =
     \<lparr>update_scene = (\<lambda>dt. returning ()), sensors = (\<lambda>w. Dict (\<lambda>w'. map Some m))\<rparr>"

text \<open>A scene whose attribute \<^verbatim>\<open>sensors\<close> holds \<^verbatim>\<open>None\<close>.\<close>

definition scene_without_mapping :: "nat scene" where
  "scene_without_mapping =
     \<lparr>update_scene = (\<lambda>dt. returning ()), sensors = (\<lambda>w. NotMapping ''NoneType'')\<rparr>"

text \<open>
  A scene whose dict of sensors has the table \<open>slots\<close> until the \<open>k\<close>-th call into
  the world and \<open>slots'\<close> from then on, and one whose dict gains the entries
  \<open>extra\<close> with that call.
\<close>

definition replacing_scene ::
  "nat \<Rightarrow> (string \<times> nat sensor) option list \<Rightarrow> (string \<times> nat sensor) option list
   \<Rightarrow> nat scene" where
  "replacing_scene k slots slots' =
     \<lparr>update_scene = (\<lambda>dt. returning ()),
      sensors = (\<lambda>w. Dict (\<lambda>w'. if w' < k then slots else slots'))\<rparr>"

definition registering_scene ::
  "nat \<Rightarrow> (string \<times> nat sensor) list \<Rightarrow> (string \<times> nat sensor) list \<Rightarrow> nat scene" where
  "registering_scene k m extra =
     \<lparr>update_scene = (\<lambda>dt. returning ()),
      sensors = (\<lambda>w. Dict (\<lambda>w'. map Some (if w' < k then m else m @ extra)))\<rparr>"

definition gui_sim :: "py_exception option \<Rightarrow> nat sim" where
  "gui_sim failure =
     \<lparr>has_gui = returning True, has_rtx_sensors = returning False,
      render = (case failure of None \<Rightarrow> returning () | Some err \<Rightarrow> raising err)\<rparr>"

definition unbound :: "(nat, nat, unit) BaseRandomizerType" where
  "unbound = fst (init lcg None [] start)"

definition bound_to :: "nat handler \<Rightarrow> (nat, nat, unit) BaseRandomizerType" where
  "bound_to h = bind_handler (Some h) unbound"

section \<open>Properties of seeding\<close>

lemma length_draws: "length (fst (draws R ks g)) = length ks"
proof (induction ks arbitrary: g)
  case Nil
  show ?case by simp
next
  case (Cons k ks)
  obtain v g' where a: "getrandbits R k g = (v, g')" by fastforce
  obtain vs g'' where b: "draws R ks g' = (vs, g'')" by fastforce
  from Cons [of g'] b have "length vs = length ks" by simp
  with a b show ?case by simp
qed

lemma set_seed_Some:
  "set_seed R (Some s) self p =
     (self\<lparr>priv_seed := Some s, priv_rng := Some (new_Random R s)\<rparr>, p)"
  by (simp add: set_seed_def)

lemma set_seed_None:
  "set_seed R None self p =
     (self\<lparr>priv_seed := Some (fst (getrandbits R 64 (inst p))),
            priv_rng := Some (new_Random R (fst (getrandbits R 64 (inst p))))\<rparr>,
      p\<lparr>inst := snd (getrandbits R 64 (inst p))\<rparr>)"
  by (simp add: set_seed_def split: prod.splits)

lemma set_seed_fields:
  "\<exists>sd. priv_seed (fst (set_seed R seed_arg self p)) = Some sd
      \<and> priv_rng (fst (set_seed R seed_arg self p)) = Some (new_Random R sd)"
  by (cases seed_arg) (simp_all add: set_seed_Some set_seed_None)

lemma rng_existing:
  "priv_rng self = Some g \<Longrightarrow> rng R self p = (Some g, self, p)"
  by (simp add: rng_def)

lemma rng_draws_existing:
  "priv_rng self = Some g \<Longrightarrow>
     rng_draws R ks self p
       = (Some (fst (draws R ks g)), self\<lparr>priv_rng := Some (snd (draws R ks g))\<rparr>, p)"
  by (simp add: rng_draws_def rng_existing split: prod.splits)

text \<open>
  Claim C1. Whatever two instances and whatever processes they live in, once
  \<^verbatim>\<open>set_seed(S)\<close> has been called on each, the draws made through their generators
  are the same list: the one a generator freshly made from \<open>S\<close> yields, a function of
  \<open>S\<close> and of the requests alone, with one value for each request. The instances are
  arbitrary, so this holds for two that were constructed independently, with or
  without a seed, and used in any way before.
\<close>

theorem seeded_draws_deterministic:
  "fst (rng_draws R ks (fst (set_seed R (Some S) self1 p1)) (snd (set_seed R (Some S) self1 p1)))
     = Some (fst (draws R ks (new_Random R S)))
   \<and> fst (rng_draws R ks (fst (set_seed R (Some S) self2 p2)) (snd (set_seed R (Some S) self2 p2)))
     = fst (rng_draws R ks (fst (set_seed R (Some S) self1 p1)) (snd (set_seed R (Some S) self1 p1)))
   \<and> length (fst (draws R ks (new_Random R S))) = length ks"
  by (simp add: set_seed_Some rng_draws_existing length_draws)

text \<open>
  Claim C5. For an integer \<open>s\<close>, \<^verbatim>\<open>set_seed(s)\<close> has no failing branch: it stores
  \<open>s\<close> as the seed and replaces the generator with one made from exactly \<open>s\<close>, and
  leaves the rest of the instance and the process as they were. Hence, whatever was
  drawn before reseeding (\<open>before\<close>), the draws after it are those of a fresh
  generator seeded with \<open>s\<close>.
\<close>

theorem set_seed_replaces_generator:
  "set_seed R (Some s) self p
     = (self\<lparr>priv_seed := Some s, priv_rng := Some (new_Random R s)\<rparr>, p)
   \<and> seed (fst (set_seed R (Some s) self p)) = Some s
   \<and> (case rng_draws R before self p of
         (drawn, self1, p1) \<Rightarrow>
           (case set_seed R (Some s) self1 p1 of
              (self2, p2) \<Rightarrow>
                fst (rng_draws R ks self2 p2) = Some (fst (draws R ks (new_Random R s)))))"
  by (simp add: set_seed_Some seed_def rng_draws_existing split: prod.splits)

text \<open>
  Claim C4. On an instance that holds no generator yet, reading \<^verbatim>\<open>rng\<close> runs
  \<^verbatim>\<open>set_seed\<close> on the stored seed and returns the generator made there; afterwards
  the seed is an integer \<open>sd\<close> and the generator is the one made from \<open>sd\<close>. Reading
  \<^verbatim>\<open>rng\<close> again returns the same generator and changes neither the instance nor
  the process (no second draw from the module-level generator), and this stays so
  when the generator has been advanced by draws in between.
\<close>

theorem rng_lazy_init:
  assumes "priv_rng self = None"
  shows "\<exists>sd self' p'.
           set_seed R (priv_seed self) self p = (self', p')
         \<and> rng R self p = (Some (new_Random R sd), self', p')
         \<and> seed self' = Some sd
         \<and> rng R self' p' = (Some (new_Random R sd), self', p')
         \<and> (\<forall>g. rng R (self'\<lparr>priv_rng := Some g\<rparr>) p'
                  = (Some g, self'\<lparr>priv_rng := Some g\<rparr>, p'))"
proof -
  obtain self' p' where s: "set_seed R (priv_seed self) self p = (self', p')"
    by fastforce
  obtain sd where f: "priv_seed self' = Some sd" "priv_rng self' = Some (new_Random R sd)"
    using set_seed_fields [of R "priv_seed self" self p] s by auto
  have "rng R self p = (Some (new_Random R sd), self', p')"
    using assms s f by (simp add: rng_def)
  moreover have "rng R self' p' = (Some (new_Random R sd), self', p')"
    using f by (simp add: rng_existing)
  moreover have "\<forall>g. rng R (self'\<lparr>priv_rng := Some g\<rparr>) p'
                  = (Some g, self'\<lparr>priv_rng := Some g\<rparr>, p')"
    by (simp add: rng_existing)
  ultimately show ?thesis using s f by (simp add: seed_def)
qed

text \<open>The instance constructed without a seed holds no generator; the claim applies to it.\<close>

theorem rng_lazy_init_witness:
  "priv_rng unbound = None
   \<and> (\<exists>sd self' p'.
           set_seed lcg (priv_seed unbound) unbound start = (self', p')
         \<and> rng lcg unbound start = (Some (new_Random lcg sd), self', p')
         \<and> seed self' = Some sd
         \<and> rng lcg self' p' = (Some (new_Random lcg sd), self', p')
         \<and> (\<forall>g. rng lcg (self'\<lparr>priv_rng := Some g\<rparr>) p'
                  = (Some g, self'\<lparr>priv_rng := Some g\<rparr>, p')))"
proof -
  have h: "priv_rng unbound = None"
    by (simp add: unbound_def init_def)
  show ?thesis using h rng_lazy_init [OF h, of lcg start] by simp
qed

subsection \<open>The invariant between generator and seed\<close>

lemma init_invariant: "seed_invariant (fst (init R seed_arg kwargs p))"
  by (cases seed_arg) (simp_all add: init_def seed_invariant_def set_seed_Some)

lemma set_seed_invariant: "seed_invariant (fst (set_seed R seed_arg self p))"
  using set_seed_fields [of R seed_arg self p] by (auto simp: seed_invariant_def)

lemma rng_invariant: "seed_invariant self \<Longrightarrow> seed_invariant (fst (snd (rng R self p)))"
  using set_seed_invariant [of R "priv_seed self" self p]
  by (auto simp: rng_def split: prod.splits)

lemma rng_seed_present:
  "seed_invariant self \<Longrightarrow> priv_seed (fst (snd (rng R self p))) \<noteq> None"
  using set_seed_fields [of R "priv_seed self" self p]
  by (auto simp: rng_def seed_invariant_def split: prod.splits)

lemma rng_draws_invariant:
  "seed_invariant self \<Longrightarrow> seed_invariant (fst (snd (rng_draws R ks self p)))"
  using rng_invariant [of self R p] rng_seed_present [of self R p]
  by (auto simp: rng_draws_def seed_invariant_def split: prod.splits option.splits)

lemma exec_invariant:
  "seed_invariant self \<Longrightarrow> seed_invariant (fst (exec R E op (self, p)))"
  by (cases op)
     (simp_all add: set_seed_invariant rng_invariant rng_draws_invariant
        bind_handler_def call_randomizer_def seed_invariant_def [of "self\<lparr>handler := h\<rparr>" for h]
        seed_invariant_def [of self])

lemma run_invariant:
  "seed_invariant (fst st) \<Longrightarrow>
     seed_invariant (fst (foldl (\<lambda>st op. exec R E op st) st ops))"
proof (induction ops arbitrary: st)
  case Nil
  then show ?case by simp
next
  case (Cons op ops)
  have "seed_invariant (fst (exec R E op st))"
    using Cons.prems exec_invariant [of "fst st" R E op "snd st"] by simp
  then show ?case using Cons.IH by simp
qed

text \<open>
  Claim C10. An instance that holds a generator holds a seed: construction
  establishes this, every operation (\<^verbatim>\<open>set_seed\<close>, the accessors \<^verbatim>\<open>seed\<close> and
  \<^verbatim>\<open>rng\<close>, draws through \<^verbatim>\<open>rng\<close>, \<^verbatim>\<open>bind_handler\<close>, \<^verbatim>\<open>__call__\<close> and the
  barrier) preserves it, and so it holds after any sequence of operations on a
  constructed instance.
\<close>

theorem seed_invariant_preserved:
  "seed_invariant (fst (init R seed_arg kwargs p))
   \<and> (seed_invariant self \<longrightarrow> seed_invariant (fst (exec R E op (self, q))))
   \<and> seed_invariant (fst (foldl (\<lambda>st op. exec R E op st) (init R seed_arg kwargs p) ops))"
  using init_invariant [of R seed_arg kwargs p] exec_invariant [of self R E op q]
    run_invariant [of "init R seed_arg kwargs p" R E ops]
  by blast

text \<open>
  After the first read of \<^verbatim>\<open>rng\<close> on an instance constructed without a seed, a
  generator is there, and so is the seed.
\<close>

theorem seed_invariant_preserved_witness:
  "seed_invariant unbound
   \<and> priv_rng (fst (exec lcg headless Op_rng (unbound, start))) \<noteq> None
   \<and> priv_seed (fst (exec lcg headless Op_rng (unbound, start))) \<noteq> None
   \<and> seed_invariant (fst (foldl (\<lambda>st op. exec lcg headless op st) (init lcg None [] start)
        [Op_rng, Op_sync_visual_updates True 3, Op_set_seed (Some 5)]))"
proof -
  have h: "seed_invariant unbound"
    by (simp add: unbound_def init_invariant)
  have g: "priv_rng (fst (exec lcg headless Op_rng (unbound, start))) \<noteq> None"
    by (simp add: unbound_def init_def rng_def set_seed_None)
  note t = seed_invariant_preserved [of lcg None "[]" start unbound headless Op_rng start
        "[Op_rng, Op_sync_visual_updates True 3, Op_set_seed (Some 5)]"]
  from t h have a: "seed_invariant (fst (exec lcg headless Op_rng (unbound, start)))"
    by blast
  from a g have "priv_seed (fst (exec lcg headless Op_rng (unbound, start))) \<noteq> None"
    unfolding seed_invariant_def by blast
  with t h g show ?thesis by blast
qed

section \<open>Properties of the barrier\<close>

subsection \<open>Traces of the phases\<close>

lemma invoke_trace:
  "invoke c m p = (r, p') \<Longrightarrow> trace p' = trace p @ [Call c (outcome r)]"
  by (cases r) (auto simp: invoke_def split: prod.splits)

lemma logger_trace: "trace (logger lvl msg p) = trace p @ [Log lvl msg]"
  by (simp add: logger_def)

lemma well_logged_append:
  "well_logged xs \<Longrightarrow> well_logged ys \<Longrightarrow> well_logged (xs @ ys)"
  by (induction xs rule: well_logged.induct) simp_all

lemma well_logged_caught:
  "well_logged xs \<Longrightarrow> caught c err \<Longrightarrow>
     well_logged (xs @ [Call c (Some err), Log (expected_level c err) (expected_message c err)])"
  by (rule well_logged_append) simp_all

lemma well_logged_raises_caught:
  "well_logged evs \<Longrightarrow> Call c (Some err) \<in> set evs \<Longrightarrow> caught c err"
  by (induction evs rule: well_logged.induct) auto

lemma run_ok_refl: "run_ok G p None p"
  by (simp add: run_ok_def)

lemma run_ok_invoke:
  "invoke c m p = (r, p') \<Longrightarrow> G c \<Longrightarrow> run_ok G p (outcome r) p'"
  by (cases r) (auto simp: run_ok_def dest!: invoke_trace)

lemma run_ok_seq:
  assumes "run_ok G p None p1" and "run_ok G p1 res p2"
  shows "run_ok G p res p2"
proof -
  from assms(1) obtain evs1 where 1: "trace p1 = trace p @ evs1" "list_all (in_group G) evs1"
    "well_logged evs1"
    by (auto simp: run_ok_def)
  show ?thesis
  proof (cases res)
    case None
    with assms(2) obtain evs2 where 2: "trace p2 = trace p1 @ evs2" "list_all (in_group G) evs2"
      "well_logged evs2"
      by (auto simp: run_ok_def)
    have "trace p2 = trace p @ (evs1 @ evs2)" using 1 2 by simp
    moreover have "list_all (in_group G) (evs1 @ evs2)" using 1 2 by simp
    moreover have "well_logged (evs1 @ evs2)" using 1 2 by (simp add: well_logged_append)
    ultimately show ?thesis using None unfolding run_ok_def by (intro exI [of _ "evs1 @ evs2"]) simp
  next
    case (Some err)
    with assms(2) obtain evs2 c evs0 where 2: "trace p2 = trace p1 @ evs2"
      "list_all (in_group G) evs2" "evs2 = evs0 @ [Call c (Some err)]" "well_logged evs0"
      by (auto simp: run_ok_def)
    have "trace p2 = trace p @ (evs1 @ evs2)" using 1 2 by simp
    moreover have "list_all (in_group G) (evs1 @ evs2)" using 1 2 by simp
    moreover have "\<exists>c' e0. evs1 @ evs2 = e0 @ [Call c' (Some err)] \<and> well_logged e0"
    proof (intro exI conjI)
      show "evs1 @ evs2 = (evs1 @ evs0) @ [Call c (Some err)]" using 2 by simp
      show "well_logged (evs1 @ evs0)" using 1 2 by (simp add: well_logged_append)
    qed
    ultimately show ?thesis using Some unfolding run_ok_def
      by (intro exI [of _ "evs1 @ evs2"]) simp
  qed
qed

lemma run_ok_catch:
  "run_ok G p (Some err) p1 \<Longrightarrow> isinstance_Exception err \<Longrightarrow>
   (\<And>c. G c \<Longrightarrow> \<not> is_iteration_call c
             \<and> lvl = expected_level c err \<and> msg = expected_message c err) \<Longrightarrow>
   run_ok G p None (logger lvl msg p1)"
  apply (clarsimp simp: run_ok_def logger_trace)
  subgoal for c evs0
    using well_logged_caught [of evs0 c err] by (auto simp: caught_def)
  done

lemma in_group_mono: "in_group G ev \<Longrightarrow> (\<And>c. G c \<Longrightarrow> H c) \<Longrightarrow> in_group H ev"
  by (cases ev) auto

lemma list_all_in_group_mono:
  "list_all (in_group G) evs \<Longrightarrow> (\<And>c. G c \<Longrightarrow> H c) \<Longrightarrow> list_all (in_group H) evs"
proof (induction evs)
  case Nil
  show ?case by simp
next
  case (Cons ev evs)
  then show ?case by (cases ev) auto
qed

lemma run_ok_mono:
  "run_ok G p res p' \<Longrightarrow> (\<And>c. G c \<Longrightarrow> H c) \<Longrightarrow> run_ok H p res p'"
proof -
  assume a: "run_ok G p res p'" and b: "\<And>c. G c \<Longrightarrow> H c"
  from a obtain evs where e: "trace p' = trace p @ evs" "list_all (in_group G) evs"
    "(case res of None \<Rightarrow> well_logged evs
      | Some err \<Rightarrow> \<exists>c evs0. evs = evs0 @ [Call c (Some err)] \<and> well_logged evs0)"
    unfolding run_ok_def by blast
  from e(2) b have "list_all (in_group H) evs" by (rule list_all_in_group_mono)
  with e show ?thesis unfolding run_ok_def by blast
qed

lemma outcome_None [simp]: "outcome r = None \<longleftrightarrow> (\<exists>x. r = Inr x)"
  by (cases r) auto

lemma outcome_Some [simp]: "outcome r = Some err \<longleftrightarrow> r = Inl err"
  by (cases r) auto

text \<open>Runs that raise only what the barrier does not catch.\<close>

lemma run_out_None: "run_out G p None p' \<longleftrightarrow> run_ok G p None p'"
  by (simp add: run_out_def run_ok_def)

lemma run_out_refl: "run_out G p None p"
  by (simp add: run_out_def)

lemma run_out_pass:
  "run_ok G p (Some err) p' \<Longrightarrow> \<not> isinstance_Exception err \<Longrightarrow> run_out G p (Some err) p'"
  by (auto simp: run_ok_def run_out_def caught_def)

lemma run_out_invoke:
  "invoke c m p = (r, p') \<Longrightarrow> G c \<Longrightarrow> is_iteration_call c \<Longrightarrow> run_out G p (outcome r) p'"
  by (cases r) (auto simp: run_out_def caught_def dest!: invoke_trace)

lemma run_out_seq:
  assumes "run_out G p None p1" and "run_out G p1 res p2"
  shows "run_out G p res p2"
proof -
  from assms(1) obtain evs1 where 1: "trace p1 = trace p @ evs1" "list_all (in_group G) evs1"
    "well_logged evs1"
    by (auto simp: run_out_def)
  show ?thesis
  proof (cases res)
    case None
    with assms show ?thesis using run_ok_seq [of G p p1 None p2] by (simp add: run_out_None)
  next
    case (Some err)
    with assms(2) obtain evs2 c evs0 where 2: "trace p2 = trace p1 @ evs2"
      "list_all (in_group G) evs2" "evs2 = evs0 @ [Call c (Some err)]" "well_logged evs0"
      "\<not> caught c err"
      by (auto simp: run_out_def)
    have "trace p2 = trace p @ (evs1 @ evs2)" using 1 2 by simp
    moreover have "list_all (in_group G) (evs1 @ evs2)" using 1 2 by simp
    moreover have "\<exists>c' e0. evs1 @ evs2 = e0 @ [Call c' (Some err)] \<and> well_logged e0
                     \<and> \<not> caught c' err"
    proof (intro exI conjI)
      show "evs1 @ evs2 = (evs1 @ evs0) @ [Call c (Some err)]" using 2 by simp
      show "well_logged (evs1 @ evs0)" using 1 2 by (simp add: well_logged_append)
      show "\<not> caught c err" by (rule 2(5))
    qed
    ultimately show ?thesis using Some unfolding run_out_def
      by (intro exI [of _ "evs1 @ evs2"]) simp
  qed
qed

lemma run_out_mono:
  "run_out G p res p' \<Longrightarrow> (\<And>c. G c \<Longrightarrow> H c) \<Longrightarrow> run_out H p res p'"
proof -
  assume a: "run_out G p res p'" and b: "\<And>c. G c \<Longrightarrow> H c"
  from a obtain evs where e: "trace p' = trace p @ evs" "list_all (in_group G) evs"
    "(case res of None \<Rightarrow> well_logged evs
      | Some err \<Rightarrow> \<exists>c evs0. evs = evs0 @ [Call c (Some err)] \<and> well_logged evs0
          \<and> \<not> caught c err)"
    unfolding run_out_def by blast
  from e(2) b have "list_all (in_group H) evs" by (rule list_all_in_group_mono)
  with e show ?thesis unfolding run_out_def by blast
qed

lemma run_out_events:
  "run_out G p res p' \<Longrightarrow> \<exists>evs. trace p' = trace p @ evs \<and> list_all (in_group G) evs"
  unfolding run_out_def by blast



lemma run_ok_no_api:
  "run_ok G p None
     (logger DEBUG ''Material library exposes no pending-refresh wait API; continuing'' p)"
  by (simp add: run_ok_def logger_trace)

lemma case_ok:
  assumes "(case fp of (Inl err, p1) \<Rightarrow> (Inl err, p1) | (Inr x, p1) \<Rightarrow> g x p1) = (r, p')"
      and "\<And>r1 p1. fp = (r1, p1) \<Longrightarrow> run_ok G p (outcome r1) p1"
      and "\<And>x p1. fp = (Inr x, p1) \<Longrightarrow> g x p1 = (r, p') \<Longrightarrow> run_ok G p1 (outcome r) p'"
  shows "run_ok G p (outcome r) p'"
proof -
  obtain r1 p1 where f: "fp = (r1, p1)" by fastforce
  show ?thesis
  proof (cases r1)
    case (Inl err)
    with assms(1) f have "r = Inl err" "p' = p1" by auto
    with assms(2) [OF f] Inl show ?thesis by simp
  next
    case (Inr x)
    with assms(1) f have g: "g x p1 = (r, p')" by simp
    from assms(2) [OF f] Inr have "run_ok G p None p1" by simp
    moreover from assms(3) f Inr g have "run_ok G p1 (outcome r) p'" by simp
    ultimately show ?thesis by (rule run_ok_seq)
  qed
qed

lemma probe_instance_ok:
  "probe_instance names inst_obj p = (r, p') \<Longrightarrow> run_ok is_matlib_call p (outcome r) p'"
proof (induction names)
  case Nil
  then show ?case by (auto simp: run_ok_refl)
next
  case (Cons a names)
  show ?case
  proof (cases "inst_obj a")
    case None
    with Cons show ?thesis by simp
  next
    case (Some wait_method)
    with Cons.prems have
      "(case invoke (InstanceWait a) wait_method p of
          (Inl err, p1) \<Rightarrow> (Inl err, p1) | (Inr u, p1) \<Rightarrow> (Inr True, p1)) = (r, p')"
      by simp
    then show ?thesis
      by (rule case_ok) (auto intro: run_ok_invoke run_ok_refl)
  qed
qed

lemma render_try_ok:
  "render_try sm p = (r, p') \<Longrightarrow> run_ok is_sim_call p (outcome r) p'"
  unfolding render_try_def
  apply (erule case_ok)
   apply (erule run_ok_invoke, simp)
  apply (simp split: if_splits)
   apply (erule run_ok_invoke, simp)
  apply (erule case_ok)
   apply (erule run_ok_invoke, simp)
  apply (simp split: if_splits)
   apply (erule run_ok_invoke, simp)
  apply (auto simp: run_ok_refl)
  done

lemma async_engine_try_ok:
  "async_engine_try E p = (r, p') \<Longrightarrow> run_ok is_async_call p (outcome r) p'"
  unfolding async_engine_try_def
  apply (erule case_ok)
   apply (erule run_ok_invoke, simp)
  apply (erule case_ok)
   apply (erule run_ok_invoke, simp)
  apply (erule run_ok_invoke, simp)
  done

lemma material_library_try_ok:
  "material_library_try E p = (r, p') \<Longrightarrow> run_ok is_matlib_call p (outcome r) p'"
  unfolding material_library_try_def
  apply (erule case_ok)
   apply (erule run_ok_invoke, simp)
  apply (erule case_ok)
   apply (simp split: option.splits)
     apply (auto simp: run_ok_refl)[1]
    apply (erule case_ok)
     apply (erule run_ok_invoke, simp)
    apply (erule probe_instance_ok)
   apply (erule case_ok)
    apply (erule run_ok_invoke, simp)
   apply (auto simp: run_ok_refl)[1]
  apply (auto simp: run_ok_refl run_ok_no_api)
  done


lemma catch_ImportError_ok:
  assumes "(case fp of
              (Inl err, p1) \<Rightarrow>
                if isinstance_ImportError err then (Inr (), logger DEBUG m1 p1)
                else if isinstance_Exception err then (Inr (), logger WARNING (m2 @ str err) p1)
                else (Inl err, p1)
            | (Inr u, p1) \<Rightarrow> (Inr (), p1)) = (r, p')"
      and "\<And>r1 p1. fp = (r1, p1) \<Longrightarrow> run_ok G p (outcome r1) p1"
      and "\<And>c. G c \<Longrightarrow> \<not> is_iteration_call c"
      and "\<And>c err. G c \<Longrightarrow> isinstance_ImportError err \<Longrightarrow>
             expected_level c err = DEBUG \<and> expected_message c err = m1"
      and "\<And>c err. G c \<Longrightarrow> \<not> isinstance_ImportError err \<Longrightarrow>
             expected_level c err = WARNING \<and> expected_message c err = m2 @ str err"
  shows "run_out G p (outcome r) p'"
proof -
  obtain r1 p1 where f: "fp = (r1, p1)" by fastforce
  note ok = assms(2) [OF f]
  show ?thesis
  proof (cases r1)
    case (Inr u)
    with assms(1) f have "r = Inr ()" "p' = p1" by auto
    with ok Inr show ?thesis by (simp add: run_out_None)
  next
    case (Inl err)
    with ok have e: "run_ok G p (Some err) p1" by simp
    consider "isinstance_ImportError err"
      | "\<not> isinstance_ImportError err" "isinstance_Exception err"
      | "\<not> isinstance_ImportError err" "\<not> isinstance_Exception err"
      by blast
    then show ?thesis
    proof cases
      case 1
      then have x: "isinstance_Exception err"
        by (simp add: isinstance_ImportError_def isinstance_Exception_def)
      from 1 assms(1) f Inl have "r = Inr ()" "p' = logger DEBUG m1 p1" by auto
      moreover have "\<not> is_iteration_call c
          \<and> DEBUG = expected_level c err \<and> m1 = expected_message c err" if "G c" for c
        using assms(3) [OF that] assms(4) [OF that 1] by simp
      with e x have "run_ok G p None (logger DEBUG m1 p1)"
        by (rule run_ok_catch)
      ultimately show ?thesis by (simp add: run_out_None)
    next
      case 2
      with assms(1) f Inl have "r = Inr ()" "p' = logger WARNING (m2 @ str err) p1" by auto
      moreover have "\<not> is_iteration_call c
          \<and> WARNING = expected_level c err \<and> m2 @ str err = expected_message c err"
        if "G c" for c
        using assms(3) [OF that] assms(5) [OF that 2(1)] by simp
      with e 2(2) have "run_ok G p None (logger WARNING (m2 @ str err) p1)"
        by (rule run_ok_catch)
      ultimately show ?thesis by (simp add: run_out_None)
    next
      case 3
      with assms(1) f Inl have "r = Inl err" "p' = p1" by auto
      with e 3 show ?thesis by (simp add: run_out_pass)
    qed
  qed
qed

lemma catch_Exception_ok:
  assumes "(case fp of
              (Inl err, p1) \<Rightarrow>
                if isinstance_Exception err then (Inr (), logger DEBUG (m @ str err) p1)
                else (Inl err, p1)
            | (Inr u, p1) \<Rightarrow> (Inr (), p1)) = (r, p')"
      and "\<And>r1 p1. fp = (r1, p1) \<Longrightarrow> run_ok G p (outcome r1) p1"
      and "\<And>c err. G c \<Longrightarrow> \<not> is_iteration_call c
             \<and> expected_level c err = DEBUG \<and> expected_message c err = m @ str err"
  shows "run_out G p (outcome r) p'"
proof -
  obtain r1 p1 where f: "fp = (r1, p1)" by fastforce
  note ok = assms(2) [OF f]
  show ?thesis
  proof (cases r1)
    case (Inr u)
    with assms(1) f have "r = Inr ()" "p' = p1" by auto
    with ok Inr show ?thesis by (simp add: run_out_None)
  next
    case (Inl err)
    with ok have e: "run_ok G p (Some err) p1" by simp
    show ?thesis
    proof (cases "isinstance_Exception err")
      case True
      with assms(1) f Inl have "r = Inr ()" "p' = logger DEBUG (m @ str err) p1" by auto
      moreover have "\<not> is_iteration_call c
          \<and> DEBUG = expected_level c err \<and> m @ str err = expected_message c err"
        if "G c" for c
        using assms(3) [OF that, of err] by simp
      with e True have "run_ok G p None (logger DEBUG (m @ str err) p1)"
        by (rule run_ok_catch)
      ultimately show ?thesis by (simp add: run_out_None)
    next
      case False
      with assms(1) f Inl have "r = Inl err" "p' = p1" by auto
      with e False show ?thesis by (simp add: run_out_pass)
    qed
  qed
qed

lemma level_matlib:
  "is_matlib_call c \<Longrightarrow> expected_level c err = (if isinstance_ImportError err then DEBUG else WARNING)"
  by (cases c) (auto simp: expected_level_def)

lemma message_matlib:
  "is_matlib_call c \<Longrightarrow> expected_message c err =
     (if isinstance_ImportError err then ''Material library not available; skipping wait''
      else ''Failed to wait for material refreshes: '' @ str err)"
  by (cases c) (simp_all add: expected_message_def)

lemma level_async:
  "is_async_call c \<Longrightarrow> expected_level c err = (if isinstance_ImportError err then DEBUG else WARNING)"
  by (cases c) (auto simp: expected_level_def)

lemma message_async:
  "is_async_call c \<Longrightarrow> expected_message c err =
     (if isinstance_ImportError err
      then ''Omniverse async engine not available; skipping wait_for_tasks''
      else ''Failed to wait for async tasks: '' @ str err)"
  by (cases c) (simp_all add: expected_message_def)

lemma level_settle:
  "is_scene_call c \<or> is_sim_call c \<or> is_sensor_call c \<Longrightarrow> expected_level c err = DEBUG"
  by (cases c) (auto simp: expected_level_def)

lemma message_scene:
  "is_scene_call c \<Longrightarrow> expected_message c err = ''Scene update during settle failed: '' @ str err"
  by (cases c) (simp_all add: expected_message_def)

lemma message_sim:
  "is_sim_call c \<Longrightarrow> expected_message c err = ''Sim render during settle failed: '' @ str err"
  by (cases c) (simp_all add: expected_message_def)

lemma message_sensor:
  "is_sensor_call c \<Longrightarrow> expected_message c err = ''Sensor update during settle failed: '' @ str err"
  by (cases c) (simp_all add: expected_message_def)

lemma guarded_calls:
  "is_scene_call c \<or> is_sim_call c \<or> is_sensor_call c \<or> is_matlib_call c \<or> is_async_call c
     \<Longrightarrow> \<not> is_iteration_call c"
  by (cases c) auto

lemma wait_for_material_library_ok:
  "wait_for_material_library E p = (r, p') \<Longrightarrow> run_out is_matlib_call p (outcome r) p'"
  unfolding wait_for_material_library_def
  by (erule catch_ImportError_ok)
     (auto simp: level_matlib message_matlib guarded_calls dest: material_library_try_ok)

lemma wait_for_async_engine_ok:
  "wait_for_async_engine E p = (r, p') \<Longrightarrow> run_out is_async_call p (outcome r) p'"
  unfolding wait_for_async_engine_def
  by (erule catch_ImportError_ok)
     (auto simp: level_async message_async guarded_calls dest: async_engine_try_ok)

lemma render_step_ok:
  "render_step sim_opt p = (r, p') \<Longrightarrow> run_out is_sim_call p (outcome r) p'"
proof (cases sim_opt)
  case None
  assume "render_step sim_opt p = (r, p')"
  with None show ?thesis by (auto simp: render_step_def run_out_refl)
next
  case (Some sm)
  assume "render_step sim_opt p = (r, p')"
  with Some have
    "(case render_try sm p of
        (Inl err, p1) \<Rightarrow>
          if isinstance_Exception err
          then (Inr (), logger DEBUG (''Sim render during settle failed: '' @ str err) p1)
          else (Inl err, p1)
      | (Inr u, p1) \<Rightarrow> (Inr (), p1)) = (r, p')"
    by (simp add: render_step_def)
  then show ?thesis
    by (rule catch_Exception_ok)
       (auto simp: level_settle message_sim guarded_calls dest: render_try_ok)
qed

text \<open>The sensor phase of a pass: the iteration and the updates.\<close>

lemma sensor_update_caught:
  assumes "invoke (SensorUpdate name 0) (update_sensor sn 0) p = (Inl err, p1)"
      and "isinstance_Exception err"
  shows "run_out is_sensor_phase_call p None
           (logger DEBUG (''Sensor update during settle failed: '' @ str err) p1)"
proof -
  have "run_ok is_sensor_call p (outcome (Inl err :: py_exception + unit)) p1"
    by (rule run_ok_invoke [OF assms(1)]) simp
  then have "run_ok is_sensor_call p (Some err) p1" by simp
  then have "run_ok is_sensor_call p None
           (logger DEBUG (''Sensor update during settle failed: '' @ str err) p1)"
    using assms(2)
    by (rule run_ok_catch) (auto simp: level_settle message_sensor guarded_calls)
  then have "run_ok is_sensor_phase_call p None
           (logger DEBUG (''Sensor update during settle failed: '' @ str err) p1)"
    by (rule run_ok_mono) (simp add: is_sensor_phase_call_def)
  then show ?thesis by (simp add: run_out_None)
qed

lemma sensor_update_passed:
  assumes "invoke (SensorUpdate name 0) (update_sensor sn 0) p = (Inl err, p1)"
      and "\<not> isinstance_Exception err"
  shows "run_out is_sensor_phase_call p (Some err) p1"
proof -
  have "run_ok is_sensor_phase_call p (outcome (Inl err :: py_exception + unit)) p1"
    by (rule run_ok_invoke [OF assms(1)]) (simp add: is_sensor_phase_call_def)
  then have "run_ok is_sensor_phase_call p (Some err) p1" by simp
  then show ?thesis using assms(2) by (rule run_out_pass)
qed

lemma sensor_update_returned:
  assumes "invoke (SensorUpdate name 0) (update_sensor sn 0) p = (Inr u, p1)"
  shows "run_out is_sensor_phase_call p None p1"
proof -
  have "run_ok is_sensor_phase_call p (outcome (Inr u :: py_exception + unit)) p1"
    by (rule run_ok_invoke [OF assms(1)]) (simp add: is_sensor_phase_call_def)
  then show ?thesis by (simp add: run_out_None)
qed

lemma next_value_ok:
  "invoke SensorsNext (next_value d used pos len) p = (r1, p1) \<Longrightarrow>
     run_out is_sensor_phase_call p (outcome r1) p1"
  by (erule run_out_invoke) (simp_all add: is_sensor_phase_call_def)

lemma sensors_loop_ok:
  "sensors_loop d used pos k p = (r, p') \<Longrightarrow> run_out is_sensor_phase_call p (outcome r) p'"
proof (induction k arbitrary: p pos)
  case 0
  obtain r1 p1 where i: "invoke SensorsNext (next_value d used pos 0) p = (r1, p1)"
    by fastforce
  note ok = next_value_ok [OF i]
  show ?case
  proof (cases r1)
    case (Inl err)
    with 0 i have "r = Inl err" "p' = p1" by auto
    with ok Inl show ?thesis by simp
  next
    case (Inr nxt)
    with 0 i have "r = Inr ()" "p' = p1" by auto
    with ok Inr show ?thesis by simp
  qed
next
  case (Suc k)
  obtain r1 p1 where i: "invoke SensorsNext (next_value d used pos (Suc k)) p = (r1, p1)"
    by fastforce
  note ok = next_value_ok [OF i]
  show ?case
  proof (cases r1)
    case (Inl err)
    with Suc.prems i have "r = Inl err" "p' = p1" by auto
    with ok Inl show ?thesis by simp
  next
    case (Inr nxt)
    with ok have ok1: "run_out is_sensor_phase_call p None p1" by simp
    show ?thesis
    proof (cases nxt)
      case None
      with Suc.prems i Inr have "r = Inr ()" "p' = p1" by auto
      with ok1 show ?thesis by simp
    next
      case (Some entry)
      obtain pos' name sn where en: "entry = (pos', name, sn)"
        by (cases entry) auto
      obtain r2 p2 where u: "invoke (SensorUpdate name 0) (update_sensor sn 0) p1 = (r2, p2)"
        by fastforce
      show ?thesis
      proof (cases r2)
        case Inr2: (Inr u2)
        with Suc.prems i Inr Some en u have "sensors_loop d used pos' k p2 = (r, p')" by simp
        note ih = Suc.IH [OF this]
        from u Inr2 have "run_out is_sensor_phase_call p1 None p2"
          using sensor_update_returned by fastforce
        with ok1 have "run_out is_sensor_phase_call p None p2" by (rule run_out_seq)
        then show ?thesis using ih by (rule run_out_seq)
      next
        case Inl2: (Inl err)
        show ?thesis
        proof (cases "isinstance_Exception err")
          case True
          let ?q = "logger DEBUG (''Sensor update during settle failed: '' @ str err) p2"
          from Suc.prems i Inr Some en u Inl2 True have "sensors_loop d used pos' k ?q = (r, p')"
            by simp
          note ih = Suc.IH [OF this]
          from u Inl2 True have "run_out is_sensor_phase_call p1 None ?q"
            using sensor_update_caught by fastforce
          with ok1 have "run_out is_sensor_phase_call p None ?q" by (rule run_out_seq)
          then show ?thesis using ih by (rule run_out_seq)
        next
          case False
          with Suc.prems i Inr Some en u Inl2 have "r = Inl err" "p' = p2" by auto
          moreover from u Inl2 False have "run_out is_sensor_phase_call p1 (Some err) p2"
            using sensor_update_passed by fastforce
          with ok1 have "run_out is_sensor_phase_call p (Some err) p2" by (rule run_out_seq)
          ultimately show ?thesis by simp
        qed
      qed
    qed
  qed
qed

lemma update_sensors_ok:
  "update_sensors sc p = (r, p') \<Longrightarrow> run_out is_sensor_phase_call p (outcome r) p'"
proof -
  assume a: "update_sensors sc p = (r, p')"
  show ?thesis
  proof (cases "sensors sc (world p)")
    case NoAttribute
    with a show ?thesis by (auto simp: update_sensors_def run_out_refl)
  next
    case (NotMapping ty)
    with a have
      "invoke SensorsValues (\<lambda>w. (Inl (attribute_error ty ''values''), w)) p = (r, p')"
      by (simp add: update_sensors_def)
    then show ?thesis
      by (rule run_out_invoke) (simp_all add: is_sensor_phase_call_def)
  next
    case (Dict d)
    obtain r1 p1 where i: "invoke SensorsValues (iter_values d) p = (r1, p1)" by fastforce
    have ok: "run_out is_sensor_phase_call p (outcome r1) p1"
      by (rule run_out_invoke [OF i]) (simp_all add: is_sensor_phase_call_def)
    show ?thesis
    proof (cases r1)
      case (Inl err)
      with a Dict i have "r = Inl err" "p' = p1" by (auto simp: update_sensors_def)
      with ok Inl show ?thesis by simp
    next
      case (Inr used)
      with a Dict i have "sensors_loop d used 0 used p1 = (r, p')"
        by (simp add: update_sensors_def)
      from sensors_loop_ok [OF this] ok Inr show ?thesis by (auto intro: run_out_seq)
    qed
  qed
qed

lemma scene_update_caught:
  assumes "invoke (SceneUpdate 0) (update_scene sc 0) p = (Inl err, p1)"
      and "isinstance_Exception err"
  shows "run_out is_settle_call p None
           (logger DEBUG (''Scene update during settle failed: '' @ str err) p1)"
proof -
  have "run_ok is_scene_call p (outcome (Inl err :: py_exception + unit)) p1"
    by (rule run_ok_invoke [OF assms(1)]) simp
  then have "run_ok is_scene_call p (Some err) p1" by simp
  then have "run_ok is_scene_call p None
           (logger DEBUG (''Scene update during settle failed: '' @ str err) p1)"
    using assms(2)
    by (rule run_ok_catch) (auto simp: level_settle message_scene guarded_calls)
  then have "run_ok is_settle_call p None
           (logger DEBUG (''Scene update during settle failed: '' @ str err) p1)"
    by (rule run_ok_mono) (simp add: is_settle_call_def)
  then show ?thesis by (simp add: run_out_None)
qed

lemma settle_loop_ok:
  "settle_loop n sc sim_opt p = (r, p') \<Longrightarrow> run_out is_settle_call p (outcome r) p'"
proof (induction n arbitrary: p)
  case 0
  then show ?case by (auto simp: run_out_refl)
next
  case (Suc n)
  obtain r1 p1 where i: "invoke (SceneUpdate 0) (update_scene sc 0) p = (r1, p1)"
    by fastforce
  have ok1: "run_ok is_settle_call p (outcome r1) p1"
    by (rule run_ok_invoke [OF i]) (simp add: is_settle_call_def)
  show ?case
  proof (cases r1)
    case (Inl err)
    show ?thesis
    proof (cases "isinstance_Exception err")
      case True
      let ?q = "logger DEBUG (''Scene update during settle failed: '' @ str err) p1"
      from Suc.prems i Inl True have "r = Inr ()" "p' = ?q" by auto
      moreover from i Inl True have "run_out is_settle_call p None ?q"
        using scene_update_caught by fastforce
      ultimately show ?thesis by simp
    next
      case False
      with Suc.prems i Inl have "r = Inl err" "p' = p1" by auto
      with ok1 Inl False show ?thesis by (simp add: run_out_pass)
    qed
  next
    case (Inr u)
    obtain r2 p2 where rs: "render_step sim_opt p1 = (r2, p2)" by fastforce
    from render_step_ok [OF rs] have ok2: "run_out is_settle_call p1 (outcome r2) p2"
      by (rule run_out_mono) (simp add: is_settle_call_def)
    from ok1 Inr have ok1': "run_out is_settle_call p None p1" by (simp add: run_out_None)
    from ok1' ok2 have ok12: "run_out is_settle_call p (outcome r2) p2" by (rule run_out_seq)
    show ?thesis
    proof (cases r2)
      case (Inl err)
      with Suc.prems i Inr rs have "r = Inl err" "p' = p2" by auto
      with ok12 Inl show ?thesis by simp
    next
      case Inr2: (Inr u2)
      obtain r3 p3 where us: "update_sensors sc p2 = (r3, p3)" by fastforce
      from update_sensors_ok [OF us] have ok3: "run_out is_settle_call p2 (outcome r3) p3"
        by (rule run_out_mono) (auto simp: is_settle_call_def is_sensor_phase_call_def)
      from ok12 Inr2 have "run_out is_settle_call p None p2" by simp
      then have ok123: "run_out is_settle_call p (outcome r3) p3" using ok3 by (rule run_out_seq)
      show ?thesis
      proof (cases r3)
        case (Inl err)
        with Suc.prems i Inr rs Inr2 us have "r = Inl err" "p' = p3" by auto
        with ok123 Inl show ?thesis by simp
      next
        case Inr3: (Inr u3)
        with Suc.prems i Inr rs Inr2 us have "settle_loop n sc sim_opt p3 = (r, p')" by auto
        note ih = Suc.IH [OF this]
        from ok123 Inr3 have "run_out is_settle_call p None p3" by simp
        then show ?thesis using ih by (rule run_out_seq)
      qed
    qed
  qed
qed

lemma settle_renderer_frames_ok:
  "settle_renderer_frames settle_passes self p = (r, p') \<Longrightarrow>
     run_out is_settle_call p (outcome r) p'"
  unfolding settle_renderer_frames_def
  by (auto split: option.splits simp: run_out_refl dest: settle_loop_ok)

lemma sync_visual_updates_ok:
  assumes "sync_visual_updates E wait_for_materials settle_passes self p = (r, p')"
  shows "run_out (is_barrier_call wait_for_materials) p (outcome r) p'"
proof -
  let ?G = "is_barrier_call wait_for_materials"
  obtain r1 p1 where m:
    "(if wait_for_materials then wait_for_material_library E p else (Inr (), p)) = (r1, p1)"
    by fastforce
  have ok1: "run_out ?G p (outcome r1) p1"
  proof (cases wait_for_materials)
    case True
    with m have "wait_for_material_library E p = (r1, p1)" by simp
    from wait_for_material_library_ok [OF this] show ?thesis
      by (rule run_out_mono) (simp add: is_barrier_call_def True)
  next
    case False
    with m show ?thesis by (auto simp: run_out_refl)
  qed
  show ?thesis
  proof (cases r1)
    case (Inl err)
    with assms m have "r = Inl err" "p' = p1" by (auto simp: sync_visual_updates_def)
    with ok1 Inl show ?thesis by simp
  next
    case (Inr u)
    obtain r2 p2 where s: "settle_renderer_frames settle_passes self p1 = (r2, p2)"
      by fastforce
    from settle_renderer_frames_ok [OF s] have ok2: "run_out ?G p1 (outcome r2) p2"
      by (rule run_out_mono) (simp add: is_barrier_call_def)
    from ok1 Inr have "run_out ?G p None p1" by simp
    then have ok12: "run_out ?G p (outcome r2) p2" using ok2 by (rule run_out_seq)
    show ?thesis
    proof (cases r2)
      case (Inl err)
      with assms m Inr s have "r = Inl err" "p' = p2" by (auto simp: sync_visual_updates_def)
      with ok12 Inl show ?thesis by simp
    next
      case Inr2: (Inr u2)
      with assms m Inr s have a: "wait_for_async_engine E p2 = (r, p')"
        by (auto simp: sync_visual_updates_def)
      from wait_for_async_engine_ok [OF a] have ok3: "run_out ?G p2 (outcome r) p'"
        by (rule run_out_mono) (simp add: is_barrier_call_def)
      from ok12 Inr2 have "run_out ?G p None p2" by simp
      then show ?thesis using ok3 by (rule run_out_seq)
    qed
  qed
qed

lemmas barrier_defs =
  sync_visual_updates_def settle_renderer_frames_def wait_for_async_engine_def
  async_engine_try_def wait_for_material_library_def material_library_try_def
  render_step_def render_try_def update_sensors_def iter_values_def next_value_def
  attribute_error_def size_changed_error_def keys_changed_error_def invoke_def logger_def
  isinstance_ImportError_def isinstance_Exception_def wait_attr_names_def

lemmas example_defs =
  headless_def kit_def failing_kit_def bare_kit_def interrupted_def raising_def returning_def
  unbound_def init_def start_def bound_to_def bind_handler_def scene_failing_from_def
  ok_sensor_def failing_sensor_def scene_with_def scene_without_mapping_def
  replacing_scene_def registering_scene_def gui_sim_def

lemma filter_outside_group:
  "list_all (in_group G) evs \<Longrightarrow> (\<And>c. G c \<Longrightarrow> \<not> H c) \<Longrightarrow> filter (is_call_in H) evs = []"
proof (induction evs)
  case Nil
  then show ?case by simp
next
  case (Cons ev evs)
  then show ?case by (cases ev) auto
qed

lemma split_after:
  "A @ rest = pre @ x # post \<Longrightarrow> x \<notin> set A \<Longrightarrow> \<exists>pre'. pre = A @ pre' \<and> rest = pre' @ x # post"
  by (induction A arbitrary: pre) (auto simp: Cons_eq_append_conv)

lemma group_member: "list_all (in_group G) evs \<Longrightarrow> Call c oc \<in> set evs \<Longrightarrow> G c"
  by (auto simp: list_all_iff)

lemma raise_is_scene_call: "is_scene_update_raise ev \<Longrightarrow> is_call_in is_scene_call ev"
  by (induction ev rule: is_scene_update_raise.induct) simp_all

lemma filter_raise_outside:
  assumes "list_all (in_group G) evs" and "\<And>c. G c \<Longrightarrow> \<not> is_scene_call c"
  shows "filter is_scene_update_raise evs = []"
proof -
  from assms have "filter (is_call_in is_scene_call) evs = []"
    by (rule filter_outside_group)
  then show ?thesis
    unfolding filter_empty_conv using raise_is_scene_call by blast
qed

lemma split_one: "[x] = pre @ y # post \<Longrightarrow> pre = [] \<and> y = x \<and> post = []"
  by (cases pre) auto

lemma split_two: "[x, l] = pre @ y # post \<Longrightarrow> y \<noteq> l \<Longrightarrow> pre = [] \<and> y = x \<and> post = [l]"
proof (cases pre)
  case Nil
  assume "[x, l] = pre @ y # post"
  with Nil show ?thesis by simp
next
  case (Cons a pre')
  assume "[x, l] = pre @ y # post" and "y \<noteq> l"
  with Cons have "[l] = pre' @ y # post" by simp
  from split_one [OF this] \<open>y \<noteq> l\<close> show ?thesis by simp
qed

text \<open>
  What one more pass does, by cases: the scene update raised and was caught, it raised
  and was not, the render raised, the sensor phase raised, or the pass was completed.
\<close>

lemma settle_loop_Suc_cases:
  assumes "settle_loop (Suc n) sc sim_opt p = (r, p')"
  obtains
    (caught) err where "isinstance_Exception err" "r = Inr ()"
      "trace p' = trace p @ [Call (SceneUpdate 0) (Some err), scene_log err]"
  | (passed) err where "\<not> isinstance_Exception err" "r = Inl err"
      "trace p' = trace p @ [Call (SceneUpdate 0) (Some err)]"
  | (left_render) err e2 where "r = Inl err"
      "trace p' = trace p @ Call (SceneUpdate 0) None # e2"
      "list_all (in_group is_sim_call) e2"
  | (left_sensors) err e2 p2 e3 where "r = Inl err"
      "trace p' = trace p @ Call (SceneUpdate 0) None # e2 @ e3"
      "list_all (in_group is_sim_call) e2"
      "list_all (in_group is_sensor_phase_call) e3"
      "update_sensors sc p2 = (Inl err, p')" "trace p' = trace p2 @ e3"
  | (next_pass) e2 p2 e3 p3 where
      "trace p3 = trace p @ Call (SceneUpdate 0) None # e2 @ e3"
      "list_all (in_group is_sim_call) e2"
      "list_all (in_group is_sensor_phase_call) e3"
      "update_sensors sc p2 = (Inr (), p3)" "trace p3 = trace p2 @ e3"
      "settle_loop n sc sim_opt p3 = (r, p')"
proof -
  obtain r1 p1 where i: "invoke (SceneUpdate 0) (update_scene sc 0) p = (r1, p1)"
    by fastforce
  note t1 = invoke_trace [OF i]
  show thesis
  proof (cases r1)
    case (Inl err)
    show ?thesis
    proof (cases "isinstance_Exception err")
      case True
      with assms i Inl t1 show ?thesis
        by (intro caught [of err]) (auto simp: scene_log_def logger_trace)
    next
      case False
      with assms i Inl t1 show ?thesis by (intro passed [of err]) auto
    qed
  next
    case (Inr u)
    obtain r2 p2 where rs: "render_step sim_opt p1 = (r2, p2)" by fastforce
    from render_step_ok [OF rs] obtain e2 where
      e2: "trace p2 = trace p1 @ e2" "list_all (in_group is_sim_call) e2"
      using run_out_events by blast
    show ?thesis
    proof (cases r2)
      case (Inl err)
      with assms i Inr rs have "r = Inl err" "p' = p2" by auto
      with t1 Inr e2 show ?thesis by (intro left_render [of err e2]) auto
    next
      case Inr2: (Inr u2)
      obtain r3 p3 where us: "update_sensors sc p2 = (r3, p3)" by fastforce
      from update_sensors_ok [OF us] obtain e3 where
        e3: "trace p3 = trace p2 @ e3" "list_all (in_group is_sensor_phase_call) e3"
        using run_out_events by blast
      have t3: "trace p3 = trace p @ Call (SceneUpdate 0) None # e2 @ e3"
        using t1 Inr e2 e3 by simp
      show ?thesis
      proof (cases r3)
        case (Inl err)
        with assms i Inr rs Inr2 us have "r = Inl err" "p' = p3" by auto
        with t3 e2(2) e3 us Inl show ?thesis by (intro left_sensors [of err e2 e3 p2]) auto
      next
        case Inr3: (Inr u3)
        with assms i Inr rs Inr2 us have "settle_loop n sc sim_opt p3 = (r, p')" by auto
        with t3 e2(2) e3 us Inr3 show ?thesis by (intro next_pass [of p3 e2 e3 p2]) auto
      qed
    qed
  qed
qed

lemma mid_no_scene:
  assumes "list_all (in_group is_sim_call) e2"
      and "list_all (in_group is_sensor_phase_call) e3"
  shows "filter (is_call_in is_scene_call) (e2 @ e3) = []"
    and "filter is_scene_update_raise (e2 @ e3) = []"
    and "Call (SceneUpdate dt) oc \<notin> set (e2 @ e3)"
proof -
  let ?G = "\<lambda>c. is_sim_call c \<or> is_sensor_phase_call c"
  have "list_all (in_group ?G) e2"
    by (rule list_all_in_group_mono [OF assms(1)]) simp
  moreover have "list_all (in_group ?G) e3"
    by (rule list_all_in_group_mono [OF assms(2)]) simp
  ultimately have g: "list_all (in_group ?G) (e2 @ e3)" by simp
  have n: "\<not> is_scene_call c" if "is_sim_call c \<or> is_sensor_phase_call c" for c
    using that by (cases c) (auto simp: is_sensor_phase_call_def)
  show "filter (is_call_in is_scene_call) (e2 @ e3) = []"
    using g n by (rule filter_outside_group)
  show "filter is_scene_update_raise (e2 @ e3) = []"
    using g n by (rule filter_raise_outside)
  show "Call (SceneUpdate dt) oc \<notin> set (e2 @ e3)"
  proof
    assume "Call (SceneUpdate dt) oc \<in> set (e2 @ e3)"
    from group_member [OF g this] n [of "SceneUpdate dt"] show False by simp
  qed
qed

text \<open>The scene updates of the loop: their number, and what follows one that raised.\<close>

lemma after_raise_none:
  "filter is_scene_update_raise evs = [] \<Longrightarrow> after_raise r evs"
proof -
  assume a: "filter is_scene_update_raise evs = []"
  have "False" if "evs = pre @ Call (SceneUpdate dt) (Some err) # post" for pre dt err post
  proof -
    from that have "Call (SceneUpdate dt) (Some err) \<in> set evs" by simp
    with a show False unfolding filter_empty_conv by fastforce
  qed
  then show ?thesis unfolding after_raise_def by blast
qed

lemma after_raise_caught:
  "isinstance_Exception err \<Longrightarrow>
     after_raise (Inr ()) [Call (SceneUpdate 0) (Some err), scene_log err]"
proof -
  assume x: "isinstance_Exception err"
  have "dt = 0 \<and> post = (if isinstance_Exception e then [scene_log e] else [])
          \<and> Inr () = (if isinstance_Exception e then Inr () else Inl e)"
    if "[Call (SceneUpdate 0) (Some err), scene_log err] = pre @ Call (SceneUpdate dt) (Some e) # post"
    for pre dt e post
  proof -
    have "Call (SceneUpdate dt) (Some e) \<noteq> scene_log err" by (simp add: scene_log_def)
    from split_two [OF that this] x show ?thesis by simp
  qed
  then show ?thesis unfolding after_raise_def by blast
qed

lemma after_raise_passed:
  "\<not> isinstance_Exception err \<Longrightarrow> after_raise (Inl err) [Call (SceneUpdate 0) (Some err)]"
proof -
  assume x: "\<not> isinstance_Exception err"
  have "dt = 0 \<and> post = (if isinstance_Exception e then [scene_log e] else [])
          \<and> Inl err = (if isinstance_Exception e then Inr () else Inl e)"
    if "[Call (SceneUpdate 0) (Some err)] = pre @ Call (SceneUpdate dt) (Some e) # post"
    for pre dt e post
    using split_one [OF that] x by simp
  then show ?thesis unfolding after_raise_def by blast
qed

lemma after_raise_prepend:
  assumes "after_raise r evs" and "filter is_scene_update_raise A = []"
  shows "after_raise r (A @ evs)"
proof -
  have "dt = 0 \<and> post = (if isinstance_Exception err then [scene_log err] else [])
          \<and> r = (if isinstance_Exception err then Inr () else Inl err)"
    if "A @ evs = pre @ Call (SceneUpdate dt) (Some err) # post" for pre dt err post
  proof -
    have "Call (SceneUpdate dt) (Some err) \<notin> set A"
      using assms(2) unfolding filter_empty_conv by fastforce
    from split_after [OF that this] obtain pre' where
      "evs = pre' @ Call (SceneUpdate dt) (Some err) # post" by blast
    with assms(1) show ?thesis unfolding after_raise_def by blast
  qed
  then show ?thesis unfolding after_raise_def by blast
qed

lemma settle_loop_shape:
  "settle_loop n sc sim_opt p = (r, p') \<Longrightarrow>
     \<exists>evs. trace p' = trace p @ evs
       \<and> length (filter (is_call_in is_scene_call) evs) \<le> n
       \<and> (r = Inr () \<and> filter is_scene_update_raise evs = [] \<longrightarrow>
            filter (is_call_in is_scene_call) evs = replicate n (Call (SceneUpdate 0) None))
       \<and> after_raise r evs"
proof (induction n arbitrary: p)
  case 0
  then show ?case by (simp add: after_raise_none)
next
  case (Suc n)
  have left: ?case
    if l: "r = Inl err" "trace p' = trace p @ Call (SceneUpdate 0) None # mid"
      "filter (is_call_in is_scene_call) mid = []" "filter is_scene_update_raise mid = []"
    for err mid
  proof (intro exI [of _ "Call (SceneUpdate 0) None # mid"] conjI)
    show "trace p' = trace p @ Call (SceneUpdate 0) None # mid" by (rule l(2))
    show "after_raise r (Call (SceneUpdate 0) None # mid)"
      by (rule after_raise_none) (simp add: l(4))
  qed (simp_all add: l(1,3))
  from Suc.prems show ?case
  proof (cases rule: settle_loop_Suc_cases)
    case (caught err)
    show ?thesis
    proof (intro exI [of _ "[Call (SceneUpdate 0) (Some err), scene_log err]"] conjI)
      show "trace p' = trace p @ [Call (SceneUpdate 0) (Some err), scene_log err]"
        by (rule caught(3))
      show "after_raise r [Call (SceneUpdate 0) (Some err), scene_log err]"
        using caught(1,2) by (simp add: after_raise_caught)
    qed (simp_all add: scene_log_def)
  next
    case (passed err)
    show ?thesis
    proof (intro exI [of _ "[Call (SceneUpdate 0) (Some err)]"] conjI)
      show "trace p' = trace p @ [Call (SceneUpdate 0) (Some err)]" by (rule passed(3))
      show "after_raise r [Call (SceneUpdate 0) (Some err)]"
        using passed(1,2) by (simp add: after_raise_passed)
    qed (simp_all add: passed(2))
  next
    case (left_render err e2)
    have "list_all (in_group is_sensor_phase_call) []" by simp
    from mid_no_scene [OF left_render(3) this] left_render(1,2) show ?thesis
      by (intro left [of err e2]) simp_all
  next
    case (left_sensors err e2 p2 e3)
    from mid_no_scene [OF left_sensors(3,4)] left_sensors(1,2) show ?thesis
      by (intro left [of err "e2 @ e3"]) simp_all
  next
    case (next_pass e2 p2 e3 p3)
    note m = mid_no_scene [OF next_pass(2,3)]
    from Suc.IH [OF next_pass(6)] obtain evs where
      e: "trace p' = trace p3 @ evs"
         "length (filter (is_call_in is_scene_call) evs) \<le> n"
         "r = Inr () \<and> filter is_scene_update_raise evs = [] \<longrightarrow>
            filter (is_call_in is_scene_call) evs = replicate n (Call (SceneUpdate 0) None)"
         "after_raise r evs"
      by blast
    let ?A = "Call (SceneUpdate 0) None # e2 @ e3"
    have A: "filter is_scene_update_raise ?A = []"
      "filter (is_call_in is_scene_call) ?A = [Call (SceneUpdate 0) None]"
      using m by simp_all
    show ?thesis
    proof (intro exI [of _ "?A @ evs"] conjI)
      show "trace p' = trace p @ ?A @ evs" using next_pass(1) e(1) by simp
      show "length (filter (is_call_in is_scene_call) (?A @ evs)) \<le> Suc n"
        using A(2) e(2) by simp
      show "r = Inr () \<and> filter is_scene_update_raise (?A @ evs) = [] \<longrightarrow>
            filter (is_call_in is_scene_call) (?A @ evs) = replicate (Suc n) (Call (SceneUpdate 0) None)"
        using A e(3) by simp
      show "after_raise r (?A @ evs)"
        using e(4) A(1) by (rule after_raise_prepend)
    qed
  qed
qed

subsection \<open>The phases in sequence\<close>





lemma settle_renderer_frames_shape:
  assumes "settle_renderer_frames settle_passes self p = (r, p')"
  shows "\<exists>evs. trace p' = trace p @ evs
       \<and> list_all (in_group is_settle_call) evs
       \<and> length (filter (is_call_in is_scene_call) evs) \<le> nat (max 0 settle_passes)
       \<and> ((\<exists>h sc. handler self = Some h \<and> scene h = Some sc)
            \<and> r = Inr () \<and> filter is_scene_update_raise evs = [] \<longrightarrow>
            filter (is_call_in is_scene_call) evs
              = replicate (nat (max 0 settle_passes)) (Call (SceneUpdate 0) None))
       \<and> after_raise r evs"
proof -
  from settle_renderer_frames_ok [OF assms] obtain evs where
    g: "trace p' = trace p @ evs" "list_all (in_group is_settle_call) evs"
    using run_out_events by blast
  show ?thesis
  proof (cases "\<exists>h sc. handler self = Some h \<and> scene h = Some sc")
    case False
    with assms have "r = Inr ()" "p' = p"
      by (auto simp: settle_renderer_frames_def split: option.splits)
    then show ?thesis using False by (intro exI [of _ "[]"]) (auto simp: after_raise_none)
  next
    case True
    then obtain h sc where hs: "handler self = Some h" "scene h = Some sc" by blast
    with assms have "settle_loop (nat (max 0 settle_passes)) sc (sim h) p = (r, p')"
      by (simp add: settle_renderer_frames_def)
    from settle_loop_shape [OF this] obtain evs' where
      s: "trace p' = trace p @ evs'"
         "length (filter (is_call_in is_scene_call) evs') \<le> nat (max 0 settle_passes)"
         "r = Inr () \<and> filter is_scene_update_raise evs' = [] \<longrightarrow>
            filter (is_call_in is_scene_call) evs'
              = replicate (nat (max 0 settle_passes)) (Call (SceneUpdate 0) None)"
         "after_raise r evs'"
      by blast
    from g(1) s(1) have "evs' = evs" by simp
    with g s show ?thesis by blast
  qed
qed





subsection \<open>Scenes whose sensors stay as they are\<close>

























lemmas run_defs = barrier_defs example_defs numeral_nat

text \<open>
  A dict in which the update of the first sensor deletes that sensor's entry and
  adds another keeps its size: the iteration goes on over the table as it is then,
  and raises when it finds an entry after the two it had to yield.
\<close>

lemma replaced_entry_raises:
  "settle_renderer_frames 1
     (bound_to \<lparr>scene = Some (replacing_scene 2
         [Some (''cam1'', ok_sensor), Some (''cam2'', ok_sensor)]
         [None, Some (''cam2'', ok_sensor), Some (''cam3'', ok_sensor)]), sim = None\<rparr>) start
   = (Inl (Exc OtherException ''dictionary keys changed during iteration''),
      \<lparr>inst = 7, world = 3,
       trace = [Call (SceneUpdate 0) None, Call SensorsValues None, Call SensorsNext None,
                Call (SensorUpdate ''cam1'' 0) None, Call SensorsNext None,
                Call (SensorUpdate ''cam2'' 0) None,
                Call SensorsNext
                  (Some (Exc OtherException ''dictionary keys changed during iteration''))]\<rparr>)"
  by (simp add: run_defs)

text \<open>
  A sensor that the second scene update registers in the scene's dict is updated in
  the second pass: every pass reads the scene's sensors anew.
\<close>

lemma registered_sensor_updated_in_next_pass:
  "settle_renderer_frames 2
     (bound_to \<lparr>scene = Some (registering_scene 3
         [(''cam1'', ok_sensor)] [(''cam2'', ok_sensor)]), sim = None\<rparr>) start
   = (Inr (),
      \<lparr>inst = 7, world = 5,
       trace = [Call (SceneUpdate 0) None, Call SensorsValues None, Call SensorsNext None,
                Call (SensorUpdate ''cam1'' 0) None, Call SensorsNext None,
                Call (SceneUpdate 0) None, Call SensorsValues None, Call SensorsNext None,
                Call (SensorUpdate ''cam1'' 0) None, Call SensorsNext None,
                Call (SensorUpdate ''cam2'' 0) None, Call SensorsNext None]\<rparr>)"
  by (simp add: run_defs)
subsection \<open>Exceptions leaving the barrier\<close>




subsection \<open>The material library is left alone unless asked for\<close>

text \<open>
  Claim C7. With \<^verbatim>\<open>wait_for_materials=False\<close> the barrier adds to the trace no
  import of the material library and no call of its wait function, of
  \<^verbatim>\<open>get_instance\<close> or of a wait method of the instance: the events of that
  group are those that were there before.
\<close>

theorem no_material_library_without_wait:
  "filter (is_call_in is_matlib_call)
     (trace (snd (sync_visual_updates E False settle_passes self p)))
   = filter (is_call_in is_matlib_call) (trace p)"
proof -
  obtain r p' where s: "sync_visual_updates E False settle_passes self p = (r, p')"
    by fastforce
  from sync_visual_updates_ok [OF s] obtain evs where
    e: "trace p' = trace p @ evs" "list_all (in_group (is_barrier_call False)) evs"
    using run_out_events by blast
  have "\<not> is_matlib_call c" if "is_barrier_call False c" for c
    using that by (cases c) (auto simp: is_barrier_call_def is_settle_call_def)
  with e(2) have "filter (is_call_in is_matlib_call) evs = []"
    by (rule filter_outside_group)
  with s e(1) show ?thesis by simp
qed

text \<open>
  Where the material library is present, the barrier reaches it when asked to and
  leaves it alone when not.
\<close>

theorem no_material_library_without_wait_witness:
  "filter (is_call_in is_matlib_call) (trace (snd (sync_visual_updates kit False 1 unbound start)))
     = []
   \<and> filter (is_call_in is_matlib_call) (trace (snd (sync_visual_updates kit True 1 unbound start)))
     = [Call ImportMatlib None, Call MatlibWaitFn None]"
proof -
  have "filter (is_call_in is_matlib_call) (trace start) = []"
    by (simp add: start_def)
  moreover have "filter (is_call_in is_matlib_call)
      (trace (snd (sync_visual_updates kit True 1 unbound start)))
     = [Call ImportMatlib None, Call MatlibWaitFn None]"
    by (simp add: run_defs)
  ultimately show ?thesis
    using no_material_library_without_wait [of kit 1 unbound start] by simp
qed

subsection \<open>A failing scene update ends the settle loop\<close>




subsection \<open>Sensors are updated independently\<close>




subsection \<open>The number of passes\<close>

text \<open>
  Claim C8, as amended. For a handler with a scene, the settle phase makes at most
  \<open>max(0, settle_passes)\<close> scene updates; when it returns and no scene update has
  raised, it has made exactly that many, each with \<open>dt = 0\<close>. With
  \<open>settle_passes \<le> 0\<close> it makes no call at all and returns.
\<close>

theorem settle_pass_count:
  assumes "handler self = Some h" and "scene h = Some sc"
  shows "\<exists>evs. trace (snd (settle_renderer_frames settle_passes self p)) = trace p @ evs
     \<and> length (filter (is_call_in is_scene_call) evs) \<le> nat (max 0 settle_passes)
     \<and> (fst (settle_renderer_frames settle_passes self p) = Inr ()
          \<and> filter is_scene_update_raise evs = [] \<longrightarrow>
          filter (is_call_in is_scene_call) evs
            = replicate (nat (max 0 settle_passes)) (Call (SceneUpdate 0) None))
     \<and> (settle_passes \<le> 0 \<longrightarrow>
          evs = [] \<and> fst (settle_renderer_frames settle_passes self p) = Inr ())"
proof -
  obtain r p' where s: "settle_renderer_frames settle_passes self p = (r, p')" by fastforce
  from settle_renderer_frames_shape [OF s] obtain evs where
    e: "trace p' = trace p @ evs"
       "length (filter (is_call_in is_scene_call) evs) \<le> nat (max 0 settle_passes)"
       "(\<exists>h sc. handler self = Some h \<and> scene h = Some sc)
            \<and> r = Inr () \<and> filter is_scene_update_raise evs = [] \<longrightarrow>
            filter (is_call_in is_scene_call) evs
              = replicate (nat (max 0 settle_passes)) (Call (SceneUpdate 0) None)"
    by blast
  have z: "evs = [] \<and> r = Inr ()" if "settle_passes \<le> 0"
  proof -
    from that have "nat (max 0 settle_passes) = 0" by simp
    with s assms have "r = Inr ()" "p' = p" by (auto simp: settle_renderer_frames_def)
    with e(1) show ?thesis by simp
  qed
  from s e z assms show ?thesis by auto
qed

text \<open>
  Two passes in which the render fails and is logged: two scene updates. A negative
  number of passes: nothing happens.
\<close>

theorem settle_pass_count_witness:
  "handler (bound_to \<lparr>scene = Some (scene_with [(''cam1'', ok_sensor)]),
                      sim = Some (gui_sim (Some (Exc OtherException ''gpu'')))\<rparr>)
     = Some \<lparr>scene = Some (scene_with [(''cam1'', ok_sensor)]),
             sim = Some (gui_sim (Some (Exc OtherException ''gpu'')))\<rparr>
   \<and> fst (settle_renderer_frames 2
        (bound_to \<lparr>scene = Some (scene_with [(''cam1'', ok_sensor)]),
                   sim = Some (gui_sim (Some (Exc OtherException ''gpu'')))\<rparr>) start) = Inr ()
   \<and> filter (is_call_in is_scene_call) (trace (snd (settle_renderer_frames 2
        (bound_to \<lparr>scene = Some (scene_with [(''cam1'', ok_sensor)]),
                   sim = Some (gui_sim (Some (Exc OtherException ''gpu'')))\<rparr>) start)))
      = [Call (SceneUpdate 0) None, Call (SceneUpdate 0) None]
   \<and> trace (snd (settle_renderer_frames (- 1)
        (bound_to \<lparr>scene = Some (scene_with [(''cam1'', ok_sensor)]),
                   sim = Some (gui_sim (Some (Exc OtherException ''gpu'')))\<rparr>) start)) = []"
proof -
  let ?h = "\<lparr>scene = Some (scene_with [(''cam1'', ok_sensor)]),
             sim = Some (gui_sim (Some (Exc OtherException ''gpu'')))\<rparr>"
  let ?self = "bound_to ?h"
  have h: "handler ?self = Some ?h" by (simp add: bound_to_def bind_handler_def)
  have sc: "scene ?h = Some (scene_with [(''cam1'', ok_sensor)])" by simp
  have r: "fst (settle_renderer_frames 2 ?self start) = Inr ()"
    by (simp add: run_defs)
  have n: "filter is_scene_update_raise (trace (snd (settle_renderer_frames 2 ?self start))) = []"
    by (simp add: run_defs)
  from settle_pass_count [OF h sc, of 2 start] obtain evs where
    e: "trace (snd (settle_renderer_frames 2 ?self start)) = trace start @ evs"
       "fst (settle_renderer_frames 2 ?self start) = Inr ()
          \<and> filter is_scene_update_raise evs = [] \<longrightarrow>
          filter (is_call_in is_scene_call) evs
            = replicate (nat (max 0 2)) (Call (SceneUpdate 0) None)"
    by blast
  from e(1) have ev: "evs = trace (snd (settle_renderer_frames 2 ?self start))"
    by (simp add: start_def)
  with e(2) r n have a: "filter (is_call_in is_scene_call)
      (trace (snd (settle_renderer_frames 2 ?self start)))
      = [Call (SceneUpdate 0) None, Call (SceneUpdate 0) None]"
    by (simp add: numeral_nat)
  from settle_pass_count [OF h sc, of "- 1" start] obtain evs' where
    "trace (snd (settle_renderer_frames (- 1) ?self start)) = trace start @ evs'" "evs' = []"
    by auto
  then have b: "trace (snd (settle_renderer_frames (- 1) ?self start)) = []"
    by (simp add: start_def)
  from h r a b show ?thesis by blast
qed

text \<open>
  The claim as stated fails when the render of the first pass raises
  \<^verbatim>\<open>KeyboardInterrupt\<close>: no scene update has raised, and one scene update was made,
  not three.
\<close>

theorem interrupted_render_cuts_passes:
  "settle_renderer_frames 3
     (bound_to \<lparr>scene = Some (scene_with []),
                sim = Some (gui_sim (Some (Exc BaseExceptionOnly ''KeyboardInterrupt'')))\<rparr>) start
   = (Inl (Exc BaseExceptionOnly ''KeyboardInterrupt''),
      \<lparr>inst = 7, world = 3,
       trace = [Call (SceneUpdate 0) None, Call SimHasGui None,
                Call SimRender (Some (Exc BaseExceptionOnly ''KeyboardInterrupt''))]\<rparr>)
   \<and> filter is_scene_update_raise (trace (snd (settle_renderer_frames 3
       (bound_to \<lparr>scene = Some (scene_with []),
                  sim = Some (gui_sim (Some (Exc BaseExceptionOnly ''KeyboardInterrupt'')))\<rparr>)
       start))) = []
   \<and> length (filter (is_call_in is_scene_call) (trace (snd (settle_renderer_frames 3
       (bound_to \<lparr>scene = Some (scene_with []),
                  sim = Some (gui_sim (Some (Exc BaseExceptionOnly ''KeyboardInterrupt'')))\<rparr>)
       start)))) = 1
   \<and> nat (max 0 3) = 3"
  by (simp add: run_defs)

subsection \<open>How failures are logged\<close>




end
